theory Spec2Isabelle
  imports Complex_Main "HOL-Library.Word" "HOL-Library.Multiset"
begin

section \<open>The data model of \<^verbatim>\<open>osr::ways\<close>\<close>

text \<open>
  The class \<^verbatim>\<open>ways\<close> of \<^verbatim>\<open>src/ways.cc\<close> holds memory-mapped columns
  and, behind the pointer \<^verbatim>\<open>r_\<close>, the routing graph. Indices (\<^verbatim>\<open>way_idx_t\<close>,
  \<^verbatim>\<open>node_idx_t\<close>, \<^verbatim>\<open>osm_node_idx_t\<close>) are natural numbers here: the code never
  does arithmetic on them. A vector is a list, a vector of buckets a list of lists.

  The slot type \<^verbatim>\<open>way_pos_t\<close> is declared in a header that is not among the
  sources; \<^verbatim>\<open>add_restriction\<close> converts loop counters to it with
  \<^verbatim>\<open>static_cast\<close>. The store takes the slot type as its type parameter
  \<open>'s\<close>; the functions use an unsigned machine integer \<open>'p word\<close> of some width
  for it. Isabelle admits no name that ends in an underscore, so the fields
  \<^verbatim>\<open>type_\<close>, \<^verbatim>\<open>from_\<close>, \<^verbatim>\<open>to_\<close> and \<^verbatim>\<open>via_\<close> of a resolved restriction
  are \<open>r_type\<close>, \<open>r_from\<close>, \<open>r_to\<close> and \<open>r_via\<close>.
\<close>

datatype restriction_type = kNo | kOnly

record resolved_restriction =
  r_type :: restriction_type
  r_from :: nat
  r_to :: nat
  r_via :: nat

record 's restriction =
  from_pos :: 's
  to_pos :: 's

record way_properties =
  is_big_street :: bool

record ('s, 'pt) ways =
  node_to_osm :: "nat list"
  way_osm_idx :: "nat list"
  way_polylines :: "'pt list list"
  way_osm_nodes :: "nat list list"
  strings :: "string list"
  way_has_conditional_access_no :: "bool list"
  way_conditional_access_no :: "(nat \<times> nat) list"
  node_way_counter_multi :: "bool list"
  way_nodes :: "nat list list"
  way_node_dist :: "16 word list list"
  node_ways :: "nat list list"
  node_in_way_idx :: "16 word list list"
  node_is_restricted :: "bool list"
  node_restrictions :: "'s restriction list list"
  way_component :: "nat option list"
  way_properties :: "way_properties list"

text \<open>\<^verbatim>\<open>n_ways()\<close> is the length of the column \<^verbatim>\<open>way_osm_idx_\<close>.\<close>

definition n_ways :: "('s, 'pt) ways \<Rightarrow> nat" where
  "n_ways w = length (way_osm_idx w)"

text \<open>
  \<^verbatim>\<open>resize(n)\<close> of a vector, as the containers of the C++ standard library do it:
  the vector has \<open>n\<close> entries afterwards, the first \<open>n\<close> old entries stay, entries
  beyond \<open>n\<close> are dropped and missing ones are filled with the default value \<open>d\<close>.
  The column \<^verbatim>\<open>node_restrictions_\<close> is declared in the header, which is not among
  the sources; the spec describes its resize as padding with empty lists.
\<close>

definition resize :: "nat \<Rightarrow> 'a \<Rightarrow> 'a list \<Rightarrow> 'a list" where
  "resize n d xs = take n xs @ replicate (n - length xs) d"

fun index_of :: "'a \<Rightarrow> 'a list \<Rightarrow> nat" where
  "index_of a [] = 0"
| "index_of a (x # xs) = (if x = a then 0 else Suc (index_of a xs))"

section \<open>Turn restrictions: \<^verbatim>\<open>ways::add_restriction\<close>\<close>

text \<open>
  Modelled from the spec: \<^verbatim>\<open>routing::get_way_pos\<close> is declared in the header,
  which is not among the sources. The spec calls its result the slot of the way at the
  node, "a way's rank among the ways touching a given node": the position of the first
  entry of \<^verbatim>\<open>node_ways_[node]\<close> that is the way, as a \<^verbatim>\<open>way_pos_t\<close>. For a way
  that does not touch the node the spec names no slot; \<open>index_of\<close> is the number of
  ways there.
\<close>

definition get_way_pos :: "('p::len word, 'pt) ways \<Rightarrow> nat \<Rightarrow> nat \<Rightarrow> 'p word" where
  "get_way_pos w node way = of_nat (index_of way (node_ways w ! node))"

text \<open>\<^verbatim>\<open>r_->node_restrictions_[v].push_back(x)\<close>\<close>

definition push_restriction ::
  "nat \<Rightarrow> 'p word restriction \<Rightarrow> ('p::len word, 'pt) ways \<Rightarrow> ('p word, 'pt) ways" where
  "push_restriction v x w =
     w\<lparr>node_restrictions := (node_restrictions w)[v := node_restrictions w ! v @ [x]]\<rparr>"

text \<open>
  The body of the loop over the records of one via node (lines 75 to 91): a \<open>kNo\<close>
  record pushes one pair; a \<open>kOnly\<close> record runs two nested loops over
  \<^verbatim>\<open>utl::enumerate(r_->node_ways_[x.via_])\<close> and pushes the pair of counters, cast
  to \<^verbatim>\<open>way_pos_t\<close>, where the test of line 85 holds.
\<close>

definition apply_restriction ::
  "resolved_restriction \<Rightarrow> ('p::len word, 'pt) ways \<Rightarrow> ('p word, 'pt) ways" where
  "apply_restriction x w =
     (if r_type x = kNo then
        push_restriction (r_via x)
          \<lparr>from_pos = get_way_pos w (r_via x) (r_from x),
           to_pos = get_way_pos w (r_via x) (r_to x)\<rparr> w
      else
        fold (\<lambda>(i, from) w1.
               fold (\<lambda>(j, to) w2.
                      if r_from x = from \<and> r_to x \<noteq> to
                      then push_restriction (r_via x)
                             \<lparr>from_pos = of_nat i, to_pos = of_nat j\<rparr> w2
                      else w2)
                 (enumerate 0 (node_ways w1 ! r_via x)) w1)
          (enumerate 0 (node_ways w ! r_via x)) w)"

text \<open>
  The callback of \<^verbatim>\<open>utl::equal_ranges_linear\<close> (lines 70 to 93), called with a
  non-empty run of records that share their via node.
\<close>

definition restrict_range ::
  "resolved_restriction list \<Rightarrow> ('p::len word, 'pt) ways \<Rightarrow> ('p word, 'pt) ways" where
  "restrict_range rng w =
     (let v = r_via (hd rng);
          w1 = w\<lparr>node_restrictions := resize (v + 1) [] (node_restrictions w)\<rparr>;
          w2 = w1\<lparr>node_is_restricted := (node_is_restricted w1)[v := True]\<rparr>
      in fold apply_restriction rng w2)"

text \<open>
  \<^verbatim>\<open>utl::equal_ranges_linear\<close> walks the vector once and cuts it into maximal runs
  of neighbours that are equal, under \<open>eq\<close>, to the first record of the run.
\<close>

function equal_ranges_linear :: "('a \<Rightarrow> 'a \<Rightarrow> bool) \<Rightarrow> 'a list \<Rightarrow> 'a list list" where
  "equal_ranges_linear eq [] = []"
| "equal_ranges_linear eq (x # xs) =
     (x # takeWhile (eq x) xs) # equal_ranges_linear eq (dropWhile (eq x) xs)"
  by pat_completeness auto
termination
  by (relation "measure (\<lambda>(eq, xs). length xs)") (auto simp: length_dropWhile_le less_Suc_eq_le)

text \<open>
  \<^verbatim>\<open>add_restriction\<close> takes the batch by reference and sorts it in place, so the
  model returns the batch beside the store. \<^verbatim>\<open>utl::sort\<close> with the comparison
  \<^verbatim>\<open>a.via_ < b.via_\<close> leaves the order of records with equal via node open; the
  model keeps their input order.
\<close>

definition add_restriction ::
  "('p::len word, 'pt) ways \<Rightarrow> resolved_restriction list
     \<Rightarrow> ('p word, 'pt) ways \<times> resolved_restriction list" where
  "add_restriction w rs =
     (let rs1 = sort_key r_via rs;
          w1 = fold restrict_range (equal_ranges_linear (\<lambda>a b. r_via a = r_via b) rs1) w
      in (w1\<lparr>node_restrictions :=
               resize (length (node_to_osm w1)) [] (node_restrictions w1)\<rparr>, rs1))"

section \<open>Conditional access restrictions: \<^verbatim>\<open>ways::get_access_restriction\<close>\<close>

text \<open>
  \<^verbatim>\<open>utl::verify\<close> throws when its condition is false; the exception carries the
  formatted message. The function returns \<^verbatim>\<open>std::optional<std::string_view>\<close>,
  so its result is an error or an optional string.
\<close>

datatype error = Verify_failed string

text \<open>The decimal digits that \<^verbatim>\<open>{}\<close> of the format string prints for an id.\<close>

definition digit_char :: "nat \<Rightarrow> char" where
  "digit_char d = ''0123456789'' ! d"

function show_nat :: "nat \<Rightarrow> string" where
  "show_nat n = (if n < 10 then [digit_char n] else show_nat (n div 10) @ [digit_char (n mod 10)])"
  by pat_completeness auto
termination
  by (relation "measure id") auto

text \<open>
  \<^verbatim>\<open>test(i)\<close> of a bit-set: the bit at \<open>i\<close>, and false behind the last bit.
\<close>

definition bitvec_test :: "bool list \<Rightarrow> nat \<Rightarrow> bool" where
  "bitvec_test bs i = (i < length bs \<and> bs ! i)"

text \<open>
  \<^verbatim>\<open>std::lower_bound\<close> with the comparison \<^verbatim>\<open>a.first < b\<close>, by its contract: the
  position behind the leading entries whose key is less than the way. The column is kept
  sorted by key, so these are all entries with a smaller key.
\<close>

definition lower_bound :: "(nat \<times> nat) list \<Rightarrow> nat \<Rightarrow> nat" where
  "lower_bound xs way = length (takeWhile (\<lambda>a. fst a < way) xs)"

definition get_access_restriction :: "('s, 'pt) ways \<Rightarrow> nat \<Rightarrow> error + string option" where
  "get_access_restriction w way =
     (if \<not> bitvec_test (way_has_conditional_access_no w) way then Inr None
      else
        let it = lower_bound (way_conditional_access_no w) way in
        if it \<noteq> length (way_conditional_access_no w) \<and>
           fst (way_conditional_access_no w ! it) = way
        then Inr (Some (strings w ! snd (way_conditional_access_no w ! it)))
        else Inl (Verify_failed
               (''access restriction for way with access restriction not found way='' @
                show_nat (way_osm_idx w ! way))))"

section \<open>Major roads: \<^verbatim>\<open>ways::compute_big_street_neighbors\<close>\<close>

text \<open>
  The two nested loops of the lambda \<^verbatim>\<open>expand\<close> (lines 122 and 123) visit, for the
  nodes \<open>n\<close> of the way \<open>x\<close> in order, the ways \<open>w\<close> of \<^verbatim>\<open>node_ways_[n]\<close> in order.
  Neither column changes during the pass, so the ways visited are this list.
\<close>

definition way_candidates :: "('s, 'pt) ways \<Rightarrow> nat \<Rightarrow> nat list" where
  "way_candidates w x = concat (map (\<lambda>n. node_ways w ! n) (way_nodes w ! x))"

text \<open>\<^verbatim>\<open>r_->way_properties_[way].is_big_street_ = true\<close>\<close>

definition set_big_street :: "nat \<Rightarrow> ('s, 'pt) ways \<Rightarrow> ('s, 'pt) ways" where
  "set_big_street way w =
     w\<lparr>way_properties := (way_properties w)[way := (way_properties w ! way)\<lparr>is_big_street := True\<rparr>]\<rparr>"

text \<open>
  The lambda \<^verbatim>\<open>expand\<close> (lines 120 to 137), run on the rest \<open>cs\<close> of the ways still
  to visit. Its state is the thread-local set \<^verbatim>\<open>s.done_\<close> and the store; it returns
  the flag of the \<^verbatim>\<open>return\<close> statements beside them. \<^verbatim>\<open>s.done_.emplace(w)\<close> runs
  whatever \<^verbatim>\<open>go_further\<close> is. The recursive call of line 130 is
  \<^verbatim>\<open>recurse(x, false, recurse)\<close>: it walks the ways at the nodes of \<open>x\<close> again.
\<close>

function expand ::
  "bool list \<Rightarrow> nat \<Rightarrow> nat \<Rightarrow> bool \<Rightarrow> nat list \<Rightarrow> nat set \<times> ('s, 'pt) ways
     \<Rightarrow> bool \<times> nat set \<times> ('s, 'pt) ways" where
  "expand orig way x go_further [] (done, w) = (False, done, w)"
| "expand orig way x go_further (c # cs) (done, w) =
     (if orig ! c then (True, done, set_big_street way w)
      else if c \<notin> done \<and> go_further then
        (case expand orig way x False (way_candidates w x) (insert c done, w) of
           (True, st) \<Rightarrow> (True, st)
         | (False, st) \<Rightarrow> expand orig way x go_further cs st)
      else expand orig way x go_further cs (insert c done, w))"
  by pat_completeness auto
termination
  by (relation "measures [\<lambda>(orig, way, x, go_further, cs, st). if go_further then 1 else 0,
                          \<lambda>(orig, way, x, go_further, cs, st). length cs]") auto

text \<open>
  The work item of \<^verbatim>\<open>utl::parallel_for_run_threadlocal\<close> for the way \<open>i\<close> (lines 110
  to 142): \<^verbatim>\<open>s.done_\<close> is cleared, the way itself is put in, and the result of the
  outer call of \<^verbatim>\<open>expand\<close> is dropped.
\<close>

definition big_street_neighbors_of :: "bool list \<Rightarrow> nat \<Rightarrow> ('s, 'pt) ways \<Rightarrow> ('s, 'pt) ways" where
  "big_street_neighbors_of orig i w =
     (if orig ! i then w
      else snd (snd (expand orig i i True (way_candidates w i) ({i}, w))))"

text \<open>
  The snapshot \<^verbatim>\<open>is_orig_big_street\<close> has \<^verbatim>\<open>n_ways()\<close> entries, false where the
  loop of lines 105 to 107 writes none. The work items read the snapshot and the two
  adjacency columns, which no item writes, and item \<open>i\<close> writes the flag of way \<open>i\<close>
  only; the model runs them in ascending order.
\<close>

definition compute_big_street_neighbors :: "('s, 'pt) ways \<Rightarrow> ('s, 'pt) ways" where
  "compute_big_street_neighbors w =
     (let is_orig_big_street = resize (n_ways w) False (map is_big_street (way_properties w))
      in fold (big_street_neighbors_of is_orig_big_street) [0..<n_ways w] w)"

section \<open>Connected components: \<^verbatim>\<open>ways::build_components\<close>\<close>

text \<open>
  The work set \<^verbatim>\<open>q\<close> is a hash set: inserting a way that is in it changes nothing,
  and \<^verbatim>\<open>*q.begin()\<close> is some way of the set. The model keeps the ways in a list
  without repetitions and takes the first. \<^verbatim>\<open>component_idx_t::invalid()\<close> is \<open>None\<close>.
\<close>

definition q_insert :: "nat \<Rightarrow> nat list \<Rightarrow> nat list" where
  "q_insert x q = (if x \<in> set q then q else q @ [x])"

text \<open>The body of the two nested loops of lines 36 to 43, for the way \<open>y\<close> they reach.\<close>

definition visit :: "nat \<Rightarrow> nat \<Rightarrow> nat option list \<times> nat list \<Rightarrow> nat option list \<times> nat list" where
  "visit c y = (\<lambda>(wc, q). if wc ! y = None then (wc[y := Some c], q_insert y q) else (wc, q))"

text \<open>
  The \<^verbatim>\<open>while\<close> loop of \<^verbatim>\<open>flood_fill\<close> (lines 33 to 45). Whether it ends depends
  on the store, so the loop is a partial function: \<open>None\<close> is a loop that does not end.
\<close>

partial_function (option) flood_fill_loop ::
  "('s, 'pt) ways \<Rightarrow> nat \<Rightarrow> nat option list \<times> nat list \<Rightarrow> nat option list option" where
  "flood_fill_loop w c st =
     (case snd st of
        [] \<Rightarrow> Some (fst st)
      | next # q \<Rightarrow> flood_fill_loop w c (fold (visit c) (way_candidates w next) (fst st, q)))"

definition flood_fill :: "('s, 'pt) ways \<Rightarrow> nat \<Rightarrow> nat \<Rightarrow> nat option list \<Rightarrow> nat option list option" where
  "flood_fill w way_idx c wc = flood_fill_loop w c (wc, q_insert way_idx [])"

text \<open>
  The body of the loop over all ways (lines 54 to 61) and \<^verbatim>\<open>build_components\<close>. The
  counter \<^verbatim>\<open>next_component_idx\<close> is a natural number: it counts at most the ways,
  whose number fits the index type.
\<close>

definition component_step ::
  "('s, 'pt) ways \<Rightarrow> nat \<Rightarrow> nat option list \<times> nat \<Rightarrow> (nat option list \<times> nat) option" where
  "component_step w i = (\<lambda>(wc, next_component_idx).
     if wc ! i \<noteq> None then Some (wc, next_component_idx)
     else map_option (\<lambda>wc1. (wc1, next_component_idx + 1))
            (flood_fill w i next_component_idx (wc[i := Some next_component_idx])))"

definition build_components :: "('s, 'pt) ways \<Rightarrow> ('s, 'pt) ways option" where
  "build_components w =
     map_option (\<lambda>(wc, next_component_idx). w\<lparr>way_component := wc\<rparr>)
       (fold (\<lambda>i st. Option.bind st (component_step w i)) [0..<n_ways w]
          (Some (resize (n_ways w) None (way_component w), 0)))"

section \<open>The graph builder: \<^verbatim>\<open>ways::connect_ways\<close>\<close>

text \<open>
  \<^verbatim>\<open>for_each_set_bit\<close> calls its argument with the positions of the set bits of the
  bit-set \<^verbatim>\<open>node_way_counter_.multi_\<close> in ascending order.
\<close>

definition set_bits :: "bool list \<Rightarrow> nat list" where
  "set_bits bs = filter (\<lambda>i. bs ! i) [0..<length bs]"

text \<open>
  \<^verbatim>\<open>node_way_counter_.is_multi(i)\<close> tests bit \<open>i\<close> of that bit-set.

  Modelled from the spec: \<^verbatim>\<open>get_node_idx\<close> is declared in the header, which is not
  among the sources. The spec has it "resolve" an external node id "to its internal id":
  the position of the id in \<^verbatim>\<open>node_to_osm_\<close>. \<^verbatim>\<open>connect_ways\<close> calls it only for
  ids whose bit is set, which are all in \<^verbatim>\<open>node_to_osm_\<close> by then.
\<close>

definition is_multi :: "('s, 'pt) ways \<Rightarrow> nat \<Rightarrow> bool" where
  "is_multi w i = bitvec_test (node_way_counter_multi w) i"

definition get_node_idx :: "('s, 'pt) ways \<Rightarrow> nat \<Rightarrow> nat" where
  "get_node_idx w i = index_of i (node_to_osm w)"

text \<open>
  \<^verbatim>\<open>std::round\<close> rounds half away from zero. The accumulated \<^verbatim>\<open>double\<close> distance
  is a real number here: the rounding error of floating-point addition is not modelled.
  \<^verbatim>\<open>static_cast<std::uint16_t>\<close> of the rounded distance is \<open>word_of_int\<close>: a
  distance beyond the 16-bit range wraps, as the spec has it.
\<close>

definition cround :: "real \<Rightarrow> int" where
  "cround x = (if 0 \<le> x then \<lfloor>x + 1 / 2\<rfloor> else \<lceil>x - 1 / 2\<rceil>)"

text \<open>
  The local variables of the loop over one way (lines 182 to 185). \<^verbatim>\<open>from\<close> starts
  as \<^verbatim>\<open>node_idx_t::invalid()\<close>, which is \<open>None\<close> here.
\<close>

record 'pt way_walk =
  pred_pos :: "'pt option"
  from_node :: "nat option"
  distance :: real
  pos_i :: "16 word"

text \<open>
  What the loop over the ways writes: the columns \<^verbatim>\<open>r_->way_nodes_\<close> and
  \<^verbatim>\<open>r_->way_node_dist_\<close>, the two temporary bucket columns \<^verbatim>\<open>node_ways\<close> and
  \<^verbatim>\<open>node_in_way_idx\<close> of lines 168 to 177, and the lines \<^verbatim>\<open>fmt::println\<close> prints.
\<close>

record builder =
  b_way_nodes :: "nat list list"
  b_way_node_dist :: "16 word list list"
  b_node_ways :: "nat list list"
  b_node_in_way_idx :: "16 word list list"
  console :: "string list"

text \<open>
  \<^verbatim>\<open>push_back\<close> on the handle that \<^verbatim>\<open>add_back_sized(0U)\<close> returned, which is the
  last bucket of its column, and \<^verbatim>\<open>push_back\<close> on the bucket of node \<open>n\<close>.
\<close>

definition push_last :: "'a \<Rightarrow> 'a list list \<Rightarrow> 'a list list" where
  "push_last x xss = xss[length xss - 1 := xss ! (length xss - 1) @ [x]]"

definition push_at :: "nat \<Rightarrow> 'a \<Rightarrow> 'a list list \<Rightarrow> 'a list list" where
  "push_at n x xss = xss[n := xss ! n @ [x]]"

text \<open>
  The body of the loop over the nodes of one way (lines 190 to 214). \<^verbatim>\<open>geo::distance\<close>
  belongs to another library and is a parameter.
\<close>

definition connect_step ::
  "('pt \<Rightarrow> 'pt \<Rightarrow> real) \<Rightarrow> ('s, 'pt) ways \<Rightarrow> nat \<Rightarrow> nat \<Rightarrow> nat \<times> 'pt
     \<Rightarrow> 'pt way_walk \<times> builder \<Rightarrow> 'pt way_walk \<times> builder" where
  "connect_step geo_distance w osm_way_idx way_idx = (\<lambda>(osm_node_idx, pos) (s, b).
     let d = (case pred_pos s of
                Some p \<Rightarrow> distance s + geo_distance pos p
              | None \<Rightarrow> distance s)
     in if is_multi w osm_node_idx then
          let to = get_node_idx w osm_node_idx;
              b1 = b\<lparr>b_node_ways := push_at to way_idx (b_node_ways b),
                     b_node_in_way_idx := push_at to (pos_i s) (b_node_in_way_idx b),
                     b_way_nodes := push_last to (b_way_nodes b)\<rparr>;
              b2 = (if from_node s \<noteq> None
                    then b1\<lparr>b_way_node_dist :=
                             push_last (word_of_int (cround d)) (b_way_node_dist b1)\<rparr>
                    else b1);
              b3 = (if pos_i s = - 1
                    then b2\<lparr>console := console b2 @
                             [''error: way with '' @ show_nat osm_way_idx @ '' nodes'']\<rparr>
                    else b2)
          in (s\<lparr>pred_pos := Some pos, from_node := Some to, distance := 0,
                pos_i := pos_i s + 1\<rparr>, b3)
        else (s\<lparr>pred_pos := Some pos, distance := d\<rparr>, b))"

text \<open>
  The body of the loop over the ways (lines 182 to 216). \<^verbatim>\<open>std::make_optional<point>()\<close>
  holds a default-constructed point, the parameter \<open>point0\<close>: \<^verbatim>\<open>pred_pos\<close> has a
  value from the start.
\<close>

definition connect_way ::
  "('pt \<Rightarrow> 'pt \<Rightarrow> real) \<Rightarrow> 'pt \<Rightarrow> ('s, 'pt) ways \<Rightarrow> nat \<times> nat list \<times> 'pt list
     \<Rightarrow> builder \<Rightarrow> builder" where
  "connect_way geo_distance point0 w = (\<lambda>(osm_way_idx, osm_nodes, polyline) b.
     let way_idx = length (b_way_nodes b);
         b1 = b\<lparr>b_way_node_dist := b_way_node_dist b @ [[]],
                b_way_nodes := b_way_nodes b @ [[]]\<rparr>;
         s = \<lparr>pred_pos = Some point0, from_node = None, distance = 0, pos_i = 0\<rparr>
     in snd (fold (connect_step geo_distance w osm_way_idx way_idx)
               (zip osm_nodes polyline) (s, b1)))"

text \<open>
  \<^verbatim>\<open>connect_ways\<close>: the internal nodes are created first (lines 153 to 160), then the
  ways are walked, then the temporary columns are copied behind \<^verbatim>\<open>r_->node_ways_\<close>
  and \<^verbatim>\<open>r_->node_in_way_idx_\<close> (lines 219 to 224). The result is the store and the
  lines printed.
\<close>

definition connect_ways ::
  "('pt \<Rightarrow> 'pt \<Rightarrow> real) \<Rightarrow> 'pt \<Rightarrow> ('s, 'pt) ways \<Rightarrow> ('s, 'pt) ways \<times> string list" where
  "connect_ways geo_distance point0 w =
     (let created = set_bits (node_way_counter_multi w);
          w1 = w\<lparr>node_to_osm := node_to_osm w @ created,
                 node_is_restricted := resize (length created) False (node_is_restricted w)\<rparr>;
          b0 = \<lparr>b_way_nodes = way_nodes w1, b_way_node_dist = way_node_dist w1,
                b_node_ways = resize (length (node_to_osm w1)) [] [],
                b_node_in_way_idx = resize (length (node_to_osm w1)) [] [],
                console = []\<rparr>;
          b = fold (connect_way geo_distance point0 w1)
                (zip (way_osm_idx w1) (zip (way_osm_nodes w1) (way_polylines w1))) b0
      in (w1\<lparr>way_nodes := b_way_nodes b, way_node_dist := b_way_node_dist b,
             node_ways := node_ways w1 @ b_node_ways b,
             node_in_way_idx := node_in_way_idx w1 @ b_node_in_way_idx b\<rparr>,
          console b))"

section \<open>Notions used to state the properties of \<^verbatim>\<open>add_restriction\<close>\<close>







section \<open>Notions used to state the properties of \<^verbatim>\<open>connect_ways\<close>\<close>

text \<open>
  The internal nodes of a way in walking order: the internal ids of those of its
  (node id, point) pairs whose node id has its bit set.
\<close>

definition internal_nodes :: "('s, 'pt) ways \<Rightarrow> (nat \<times> 'pt) list \<Rightarrow> nat list" where
  "internal_nodes w zs = map (get_node_idx w) (filter (is_multi w) (map fst zs))"

text \<open>The lines a way with \<open>m\<close> internal nodes prints: one whenever the counter is at its maximum.\<close>

definition overflow_lines :: "nat \<Rightarrow> nat \<Rightarrow> string list" where
  "overflow_lines osm_way_idx m =
     concat (map (\<lambda>k. if (of_nat k :: 16 word) = - 1
                       then [''error: way with '' @ show_nat osm_way_idx @ '' nodes''] else [])
             [0..<m])"

text \<open>The positions in a way at which the internal node \<open>n\<close> stands.\<close>

definition positions_at :: "nat list \<Rightarrow> nat \<Rightarrow> nat list" where
  "positions_at tos n = filter (\<lambda>k. tos ! k = n) [0..<length tos]"

text \<open>The state in which the walk over a way starts, and what holds after each step of it.\<close>

definition walk_start :: "'pt \<Rightarrow> builder \<Rightarrow> 'pt way_walk \<times> builder" where
  "walk_start point0 b =
     (\<lparr>pred_pos = Some point0, from_node = None, distance = 0, pos_i = 0\<rparr>,
      b\<lparr>b_way_node_dist := b_way_node_dist b @ [[]], b_way_nodes := b_way_nodes b @ [[]]\<rparr>)"

definition walk_inv ::
  "('s, 'pt) ways \<Rightarrow> nat \<Rightarrow> builder \<Rightarrow> (nat \<times> 'pt) list \<Rightarrow> 'pt way_walk \<times> builder \<Rightarrow> bool" where
  "walk_inv w osm_way_idx b zs = (\<lambda>(s1, b1).
     b_way_nodes b1 = b_way_nodes b @ [internal_nodes w zs] \<and>
     (\<exists>ds. b_way_node_dist b1 = b_way_node_dist b @ [ds] \<and>
           length ds = length (internal_nodes w zs) - 1) \<and>
     (from_node s1 = None) = (internal_nodes w zs = []) \<and>
     pos_i s1 = of_nat (length (internal_nodes w zs)) \<and>
     console b1 = console b @ overflow_lines osm_way_idx (length (internal_nodes w zs)) \<and>
     length (b_node_ways b1) = length (b_node_ways b) \<and>
     length (b_node_in_way_idx b1) = length (b_node_in_way_idx b) \<and>
     (\<forall>n<length (b_node_ways b). b_node_ways b1 ! n =
        b_node_ways b ! n @
        map (\<lambda>k. length (b_way_nodes b)) (positions_at (internal_nodes w zs) n)) \<and>
     (\<forall>n<length (b_node_in_way_idx b). b_node_in_way_idx b1 ! n =
        b_node_in_way_idx b ! n @ map of_nat (positions_at (internal_nodes w zs) n)))"

text \<open>The same for a way as the outer loop sees it: external way id, node ids and points.\<close>

definition way_internal_nodes :: "('s, 'pt) ways \<Rightarrow> nat \<times> nat list \<times> 'pt list \<Rightarrow> nat list" where
  "way_internal_nodes w = (\<lambda>(osm_way_idx, osm_nodes, polyline).
     internal_nodes w (zip osm_nodes polyline))"

definition way_overflow_lines :: "('s, 'pt) ways \<Rightarrow> nat \<times> nat list \<times> 'pt list \<Rightarrow> string list" where
  "way_overflow_lines w t = overflow_lines (fst t) (length (way_internal_nodes w t))"

text \<open>
  The two temporary columns read side by side: for a node, the ways that touch it, each
  with the position stored for it.
\<close>

definition entries :: "builder \<Rightarrow> nat \<Rightarrow> (nat \<times> 16 word) list" where
  "entries b n = zip (b_node_ways b ! n) (b_node_in_way_idx b ! n)"

definition aligned :: "builder \<Rightarrow> bool" where
  "aligned b = (length (b_node_in_way_idx b) = length (b_node_ways b) \<and>
     (\<forall>n<length (b_node_ways b). length (b_node_in_way_idx b ! n) = length (b_node_ways b ! n)))"

text \<open>What holds after the loop over the ways \<open>ts\<close>, started in \<open>b\<close>.\<close>

definition connect_inv ::
  "('s, 'pt) ways \<Rightarrow> builder \<Rightarrow> (nat \<times> nat list \<times> 'pt list) list \<Rightarrow> builder \<Rightarrow> bool" where
  "connect_inv w b ts b1 =
    (b_way_nodes b1 = b_way_nodes b @ map (way_internal_nodes w) ts \<and>
     (\<exists>dss. b_way_node_dist b1 = b_way_node_dist b @ dss \<and>
        list_all2 (\<lambda>ds t. length ds = length (way_internal_nodes w t) - 1) dss ts) \<and>
     console b1 = console b @ concat (map (way_overflow_lines w) ts) \<and>
     aligned b1 \<and> length (b_node_ways b1) = length (b_node_ways b) \<and>
     (\<forall>n<length (b_node_ways b). set (entries b n) \<subseteq> set (entries b1 n)) \<and>
     (\<forall>j<length ts. \<forall>k<length (way_internal_nodes w (ts ! j)).
        way_internal_nodes w (ts ! j) ! k < length (b_node_ways b) \<longrightarrow>
        (length (b_way_nodes b) + j, of_nat k)
          \<in> set (entries b1 (way_internal_nodes w (ts ! j) ! k))))"

text \<open>The number of ways that refer to the external node id \<open>i\<close>.\<close>

definition way_refs :: "('s, 'pt) ways \<Rightarrow> nat \<Rightarrow> nat" where
  "way_refs w i = length (filter (\<lambda>osm_nodes. i \<in> set osm_nodes) (way_osm_nodes w))"

text \<open>
  The ways as \<^verbatim>\<open>utl::zip\<close> of line 181 yields them, the store after the first block of
  \<^verbatim>\<open>connect_ways\<close>, and the builder before and after the loop over the ways.
\<close>

definition survey_input :: "('s, 'pt) ways \<Rightarrow> (nat \<times> nat list \<times> 'pt list) list" where
  "survey_input w = zip (way_osm_idx w) (zip (way_osm_nodes w) (way_polylines w))"

definition with_nodes :: "('s, 'pt) ways \<Rightarrow> ('s, 'pt) ways" where
  "with_nodes w = w\<lparr>node_to_osm := node_to_osm w @ set_bits (node_way_counter_multi w),
     node_is_restricted :=
       resize (length (set_bits (node_way_counter_multi w))) False (node_is_restricted w)\<rparr>"

definition builder_start :: "('s, 'pt) ways \<Rightarrow> builder" where
  "builder_start w = \<lparr>b_way_nodes = way_nodes w, b_way_node_dist = way_node_dist w,
     b_node_ways = resize (length (node_to_osm w)) [] [],
     b_node_in_way_idx = resize (length (node_to_osm w)) [] [],
     console = []\<rparr>"

definition built :: "('pt \<Rightarrow> 'pt \<Rightarrow> real) \<Rightarrow> 'pt \<Rightarrow> ('s, 'pt) ways \<Rightarrow> builder" where
  "built geo_distance point0 w =
     fold (connect_way geo_distance point0 (with_nodes w)) (survey_input w)
       (builder_start (with_nodes w))"

section \<open>Notions used to state the properties of \<^verbatim>\<open>build_components\<close>\<close>

text \<open>
  Two ways share an internal node; the pairs of ways of the store that do; and the store
  lists the same adjacency from both sides: every node of a way is a node of the store
  and lists the way, every way at a node is a way of the store and has the node.
\<close>

definition shares_node :: "('s, 'pt) ways \<Rightarrow> nat \<Rightarrow> nat \<Rightarrow> bool" where
  "shares_node w x y = (\<exists>n\<in>set (way_nodes w ! x). n \<in> set (way_nodes w ! y))"

definition sharing :: "('s, 'pt) ways \<Rightarrow> (nat \<times> nat) set" where
  "sharing w = {(x, y). x < n_ways w \<and> y < n_ways w \<and> shares_node w x y}"

definition adjacency_ok :: "('s, 'pt) ways \<Rightarrow> bool" where
  "adjacency_ok w =
     (length (way_nodes w) = n_ways w \<and>
      (\<forall>x<n_ways w. \<forall>n\<in>set (way_nodes w ! x).
         n < length (node_ways w) \<and> x \<in> set (node_ways w ! n)) \<and>
      (\<forall>n<length (node_ways w). \<forall>y\<in>set (node_ways w ! n).
         y < n_ways w \<and> n \<in> set (way_nodes w ! y)))"

text \<open>
  The pairs the flood fill steps along, the number of ways without component, and what
  holds while one component is filled and while the ways are labelled.
\<close>

definition touching :: "('s, 'pt) ways \<Rightarrow> (nat \<times> nat) set" where
  "touching w = {(x, y). x < n_ways w \<and> y \<in> set (way_candidates w x)}"

definition candidates_ok :: "('s, 'pt) ways \<Rightarrow> bool" where
  "candidates_ok w = (\<forall>x<n_ways w. \<forall>y\<in>set (way_candidates w x). y < n_ways w)"

definition unlabelled :: "nat option list \<Rightarrow> nat" where
  "unlabelled wc = length (filter (\<lambda>c. c = None) wc)"

definition fill_measure :: "nat option list \<times> nat list \<Rightarrow> nat" where
  "fill_measure = (\<lambda>(wc, q). unlabelled wc + length q)"

definition fill_inv ::
  "('s, 'pt) ways \<Rightarrow> nat \<Rightarrow> nat \<Rightarrow> nat option list \<Rightarrow> nat option list \<times> nat list \<Rightarrow> bool" where
  "fill_inv w c s wc0 = (\<lambda>(wc, q).
     length wc = n_ways w \<and>
     (\<forall>y\<in>set q. y < n_ways w \<and> wc ! y = Some c) \<and>
     (\<forall>y<n_ways w. wc ! y = wc0 ! y \<or> (wc0 ! y = None \<and> wc ! y = Some c)) \<and>
     (\<forall>y<n_ways w. wc ! y = Some c \<longrightarrow> (s, y) \<in> (touching w)\<^sup>*) \<and>
     (\<forall>x<n_ways w. wc ! x = Some c \<longrightarrow> x \<notin> set q \<longrightarrow>
        (\<forall>y\<in>set (way_candidates w x). wc ! y \<noteq> None)))"

definition labelled_inv :: "('s, 'pt) ways \<Rightarrow> nat \<Rightarrow> nat option list \<times> nat \<Rightarrow> bool" where
  "labelled_inv w i = (\<lambda>(wc, k).
     length wc = n_ways w \<and>
     (\<forall>y<i. wc ! y \<noteq> None) \<and>
     (\<forall>y<n_ways w. \<forall>c. wc ! y = Some c \<longrightarrow> c < k) \<and>
     (\<forall>x<n_ways w. wc ! x \<noteq> None \<longrightarrow> (\<forall>y\<in>set (way_candidates w x). wc ! y = wc ! x)) \<and>
     (\<forall>x<n_ways w. \<forall>y<n_ways w. wc ! x \<noteq> None \<longrightarrow> wc ! x = wc ! y \<longrightarrow>
        (x, y) \<in> (touching w)\<^sup>*))"

section \<open>Example stores\<close>

definition empty_ways :: "('s, 'pt) ways" where
  "empty_ways = \<lparr>node_to_osm = [], way_osm_idx = [], way_polylines = [], way_osm_nodes = [],
     strings = [], way_has_conditional_access_no = [], way_conditional_access_no = [],
     node_way_counter_multi = [], way_nodes = [], way_node_dist = [], node_ways = [],
     node_in_way_idx = [], node_is_restricted = [], node_restrictions = [],
     way_component = [], way_properties = []\<rparr>"






text \<open>Three ways; way 0 has an access restriction, way 2 only the presence bit of one.\<close>

definition access_store :: "(8 word, unit) ways" where
  "access_store = empty_ways\<lparr>way_osm_idx := [100, 205, 317],
     strings := [''no @ (Mo-Fr 07:00-09:00)'', ''no @ (Sa,Su)''],
     way_has_conditional_access_no := [True, False, True],
     way_conditional_access_no := [(0, 1)]\<rparr>"

text \<open>
  The chain of the spec: way 0, tagged major, shares node 0 with way 1; way 1 shares
  node 1 with way 2.
\<close>

definition chain_store :: "(8 word, unit) ways" where
  "chain_store = empty_ways\<lparr>node_to_osm := [7, 9], way_osm_idx := [100, 101, 102],
     way_nodes := [[0], [0, 1], [1]], node_ways := [[0, 1], [1, 2]],
     way_properties := [\<lparr>is_big_street = True\<rparr>, \<lparr>is_big_street = False\<rparr>,
                        \<lparr>is_big_street = False\<rparr>]\<rparr>"

text \<open>
  Points on a line, and three surveyed ways: the first two share the node ids 1 and 3,
  the third shares no node id with another way.
\<close>

definition line_distance :: "int \<Rightarrow> int \<Rightarrow> real" where
  "line_distance p q = real_of_int \<bar>p - q\<bar>"

definition survey :: "(8 word, int) ways" where
  "survey = empty_ways\<lparr>way_osm_idx := [100, 101, 102],
     way_osm_nodes := [[1, 2, 3], [3, 4, 1], [8, 9]],
     way_polylines := [[0, 10, 25], [25, 30, 0], [50, 60]],
     node_way_counter_multi := [False, True, False, True]\<rparr>"

text \<open>A way that passes 65536 times through the node id 5, whose bit is set.\<close>

definition ring_length :: nat where
  "ring_length = 65536"

definition ring_survey :: "(8 word, int) ways" where
  "ring_survey = empty_ways\<lparr>way_osm_idx := [100],
     way_osm_nodes := [replicate ring_length 5],
     way_polylines := [replicate ring_length 0],
     node_way_counter_multi := [False, False, False, False, False, True]\<rparr>"

text \<open>
  Five ways: ways 0 and 1 share node 0, ways 3 and 4 share node 1, way 2 has no internal
  node.
\<close>

definition islands :: "(8 word, unit) ways" where
  "islands = empty_ways\<lparr>way_osm_idx := [100, 101, 102, 103, 104],
     way_nodes := [[0], [0], [], [1], [1]], node_ways := [[0, 1], [3, 4]]\<rparr>"

section \<open>Properties of \<^verbatim>\<open>add_restriction\<close>\<close>

subsection \<open>The batch is sorted in place\<close>

text \<open>
  C10: after \<^verbatim>\<open>add_restriction\<close> the caller's vector holds the same records, each
  as often as before and none changed, in ascending order of their via node.
\<close>

theorem add_restriction_sorts_batch:
  "mset (snd (add_restriction w rs)) = mset rs \<and>
   sorted (map r_via (snd (add_restriction w rs)))"
  by (simp add: add_restriction_def Let_def)

subsection \<open>What a batch leaves in the column\<close>







lemma enumerate_as_map: "enumerate 0 ws = map (\<lambda>i. (i, ws ! i)) [0..<length ws]"
  by (rule nth_equalityI) (simp_all add: nth_enumerate_eq)

lemma concat_map_enumerate:
  "concat (map (\<lambda>(i, a). h i a) (enumerate 0 ws)) = concat (map (\<lambda>i. h i (ws ! i)) [0..<length ws])"
  by (simp add: enumerate_as_map comp_def)




lemma length_resize: "length (resize n d xs) = n"
  by (simp add: resize_def)

lemma nth_resize: "i < n \<Longrightarrow> resize n d xs ! i = (if i < length xs then xs ! i else d)"
  by (simp add: resize_def nth_append)





















lemma index_of_less: "a \<in> set ws \<Longrightarrow> index_of a ws < length ws"
  by (induction ws) auto



lemma in_concat_map: "x \<in> set xs \<Longrightarrow> y \<in> set (f x) \<Longrightarrow> y \<in> set (concat (map f xs))"
  by auto



subsection \<open>The records of a batch\<close>







subsection \<open>Several batches\<close>





section \<open>Properties of \<^verbatim>\<open>get_access_restriction\<close>\<close>

lemma lower_bound_le: "lower_bound xs way \<le> length xs"
  by (simp add: lower_bound_def length_takeWhile_le)

lemma lower_bound_miss:
  "way \<notin> fst ` set xs \<Longrightarrow>
   lower_bound xs way \<noteq> length xs \<and> fst (xs ! lower_bound xs way) = way \<Longrightarrow> False"
proof -
  assume notin: "way \<notin> fst ` set xs"
    and hit: "lower_bound xs way \<noteq> length xs \<and> fst (xs ! lower_bound xs way) = way"
  then have "lower_bound xs way < length xs"
    using lower_bound_le [of xs way] by simp
  then have "xs ! lower_bound xs way \<in> set xs"
    by (rule nth_mem)
  with notin hit show False
    by (metis image_eqI)
qed

lemma lower_bound_hit:
  "sorted (map fst xs) \<Longrightarrow> map_of xs way = Some s \<Longrightarrow>
   lower_bound xs way < length xs \<and> xs ! lower_bound xs way = (way, s)"
proof (induction xs)
  case Nil
  then show ?case by simp
next
  case (Cons a xs)
  show ?case
  proof (cases "fst a < way")
    case True
    with Cons show ?thesis
      by (cases a) (auto simp: lower_bound_def)
  next
    case False
    have "way \<in> fst ` set (a # xs)"
      using Cons.prems(2) by (metis map_of_eq_None_iff option.distinct(1))
    then have "fst a = way"
      using False Cons.prems(1) by (auto simp: image_iff)
    with Cons.prems(2) show ?thesis
      by (cases a) (auto simp: lower_bound_def)
  qed
qed

text \<open>
  C8: the result is empty exactly when the presence bit of the way is unset. With the bit
  set and no entry for the way in the association column, the call fails with the message
  that ends in the external id of the way. With the bit set and an entry for the way in
  the sorted column, it returns the string the (first) entry refers to.
\<close>

theorem get_access_restriction_cases:
  "(get_access_restriction w way = Inr None \<longleftrightarrow>
      \<not> bitvec_test (way_has_conditional_access_no w) way) \<and>
   (bitvec_test (way_has_conditional_access_no w) way \<longrightarrow>
    map_of (way_conditional_access_no w) way = None \<longrightarrow>
      get_access_restriction w way =
        Inl (Verify_failed
              (''access restriction for way with access restriction not found way='' @
               show_nat (way_osm_idx w ! way)))) \<and>
   (bitvec_test (way_has_conditional_access_no w) way \<longrightarrow>
    sorted (map fst (way_conditional_access_no w)) \<longrightarrow>
    (\<forall>s. map_of (way_conditional_access_no w) way = Some s \<longrightarrow>
      get_access_restriction w way = Inr (Some (strings w ! s))))"
proof (intro conjI impI allI)
  show "get_access_restriction w way = Inr None \<longleftrightarrow>
      \<not> bitvec_test (way_has_conditional_access_no w) way"
    by (simp add: get_access_restriction_def Let_def)
next
  assume "bitvec_test (way_has_conditional_access_no w) way"
    and "map_of (way_conditional_access_no w) way = None"
  then show "get_access_restriction w way =
        Inl (Verify_failed
              (''access restriction for way with access restriction not found way='' @
               show_nat (way_osm_idx w ! way)))"
    using lower_bound_miss [of way "way_conditional_access_no w"]
    by (auto simp: get_access_restriction_def Let_def map_of_eq_None_iff)
next
  fix s
  assume "bitvec_test (way_has_conditional_access_no w) way"
    and "sorted (map fst (way_conditional_access_no w))"
    and "map_of (way_conditional_access_no w) way = Some s"
  then show "get_access_restriction w way = Inr (Some (strings w ! s))"
    using lower_bound_hit [of "way_conditional_access_no w" way s]
    by (simp add: get_access_restriction_def Let_def)
qed

theorem get_access_restriction_witness:
  "get_access_restriction access_store 0 = Inr (Some ''no @ (Sa,Su)'') \<and>
   get_access_restriction access_store 1 = Inr None \<and>
   get_access_restriction access_store 2 =
     Inl (Verify_failed ''access restriction for way with access restriction not found way=317'')"
  using get_access_restriction_cases [of access_store 0]
    get_access_restriction_cases [of access_store 1]
    get_access_restriction_cases [of access_store 2]
  by (simp add: access_store_def empty_ways_def bitvec_test_def digit_char_def)

section \<open>Properties of \<^verbatim>\<open>compute_big_street_neighbors\<close>\<close>

lemma expand_no_further:
  "expand orig way x False cs (done, w) =
     (if \<exists>c\<in>set cs. orig ! c
      then (True, done \<union> set (takeWhile (\<lambda>c. \<not> orig ! c) cs), set_big_street way w)
      else (False, done \<union> set cs, w))"
  by (induction cs arbitrary: "done") auto

lemma expand_further:
  "\<exists>done'. expand orig way x True cs (done, w) =
     (if (\<exists>c\<in>set cs. orig ! c) \<or>
         ((\<exists>c\<in>set cs. c \<notin> done) \<and> (\<exists>c\<in>set (way_candidates w x). orig ! c))
      then (True, done', set_big_street way w) else (False, done', w))"
proof (induction cs arbitrary: "done")
  case Nil
  then show ?case by simp
next
  case (Cons c cs)
  show ?case
  proof (cases "orig ! c")
    case True
    then show ?thesis by simp
  next
    case no_hit: False
    show ?thesis
    proof (cases "c \<in> done")
      case True
      then have "insert c done = done" by auto
      with no_hit True Cons.IH [of "done"] show ?thesis
        by simp
    next
      case fresh: False
      show ?thesis
      proof (cases "\<exists>c\<in>set (way_candidates w x). orig ! c")
        case True
        with no_hit fresh show ?thesis
          by (simp add: expand_no_further)
      next
        case False
        with no_hit fresh
          Cons.IH [of "insert c done \<union> set (way_candidates w x)"]
        show ?thesis
          by (simp add: expand_no_further)
      qed
    qed
  qed
qed

lemma big_street_neighbors_of_eq:
  "big_street_neighbors_of orig i w =
     (if \<not> orig ! i \<and> (\<exists>c\<in>set (way_candidates w i). orig ! c) then set_big_street i w else w)"
  using expand_further [of orig i i "way_candidates w i" "{i}" w]
  by (auto simp: big_street_neighbors_of_def)

lemma way_candidates_set_big_street:
  "way_candidates (set_big_street i w) = way_candidates w"
  by (rule ext) (simp add: way_candidates_def set_big_street_def)

lemma fold_big_street_neighbors_of:
  "way_candidates (fold (big_street_neighbors_of orig) js w) = way_candidates w \<and>
   length (way_properties (fold (big_street_neighbors_of orig) js w)) = length (way_properties w) \<and>
   (\<forall>j<length (way_properties w).
      is_big_street (way_properties (fold (big_street_neighbors_of orig) js w) ! j) =
      (is_big_street (way_properties w ! j) \<or>
       (j \<in> set js \<and> \<not> orig ! j \<and> (\<exists>c\<in>set (way_candidates w j). orig ! c))))"
proof (induction js arbitrary: w)
  case Nil
  then show ?case by simp
next
  case (Cons i js)
  let ?w1 = "big_street_neighbors_of orig i w"
  have cand: "way_candidates ?w1 = way_candidates w"
    by (simp add: big_street_neighbors_of_eq way_candidates_set_big_street)
  have len: "length (way_properties ?w1) = length (way_properties w)"
    by (simp add: big_street_neighbors_of_eq set_big_street_def)
  have flag: "is_big_street (way_properties ?w1 ! j) =
      (is_big_street (way_properties w ! j) \<or>
       (j = i \<and> \<not> orig ! j \<and> (\<exists>c\<in>set (way_candidates w j). orig ! c)))"
    if "j < length (way_properties w)" for j
    using that by (cases "j = i") (auto simp: big_street_neighbors_of_eq set_big_street_def)
  show ?case
    using Cons.IH [of ?w1] by (auto simp: cand len flag)
qed

text \<open>
  Where every way has its properties, a way is flagged after the pass if and only if it
  was flagged before or a way at one of its own nodes was: no second hop is ever taken.
\<close>

lemma compute_big_street_neighbors_one_hop:
  assumes "length (way_properties w) = n_ways w" and "i < n_ways w"
  shows "is_big_street (way_properties (compute_big_street_neighbors w) ! i) =
         (is_big_street (way_properties w ! i) \<or>
          (\<exists>c\<in>set (way_candidates w i). map is_big_street (way_properties w) ! c))"
proof -
  have orig: "resize (n_ways w) False (map is_big_street (way_properties w)) =
              map is_big_street (way_properties w)"
    using assms(1) by (simp add: resize_def)
  show ?thesis
    using assms fold_big_street_neighbors_of
      [of "map is_big_street (way_properties w)" "[0..<n_ways w]" w]
    by (auto simp: compute_big_street_neighbors_def orig)
qed

text \<open>
  C1 at the scenario of the spec: way 0 is major and shares node 0 with way 1, way 1
  shares node 1 with way 2. The claim has way 2, two hops from way 0, flagged. The code
  flags way 1 and leaves way 2 as it is.
\<close>

theorem big_street_two_hops_not_flagged:
  "map is_big_street (way_properties (compute_big_street_neighbors chain_store)) =
   [True, True, False]"
  by (simp add: compute_big_street_neighbors_def chain_store_def empty_ways_def n_ways_def
      resize_def big_street_neighbors_of_def way_candidates_def set_big_street_def Let_def
      upt_rec)

section \<open>Properties of \<^verbatim>\<open>connect_ways\<close>\<close>

lemma survey_eval:
  "connect_ways line_distance 0 survey =
    (survey\<lparr>node_to_osm := [1, 3], node_is_restricted := [False, False],
       way_nodes := [[0, 1], [1, 0], []], way_node_dist := [[25], [35], []],
       node_ways := [[0, 1], [0, 1]], node_in_way_idx := [[0, 1], [1, 0]]\<rparr>, [])"
  by (simp add: connect_ways_def survey_def empty_ways_def set_bits_def connect_way_def
      connect_step_def is_multi_def bitvec_test_def get_node_idx_def resize_def push_at_def push_last_def
      cround_def line_distance_def Let_def upt_rec)

lemma push_last_snoc: "push_last x (xss @ [xs]) = xss @ [xs @ [x]]"
  by (simp add: push_last_def)

lemma positions_at_snoc:
  "positions_at (tos @ [to]) n = positions_at tos n @ (if to = n then [length tos] else [])"
proof -
  have "filter (\<lambda>k. (tos @ [to]) ! k = n) [0..<length tos] = filter (\<lambda>k. tos ! k = n) [0..<length tos]"
    by (rule filter_cong) (simp_all add: nth_append)
  then show ?thesis
    by (simp add: positions_at_def)
qed

lemma nth_push_at:
  "n < length xss \<Longrightarrow> push_at to x xss ! n = xss ! n @ (if to = n then [x] else [])"
  by (simp add: push_at_def nth_list_update)

lemma length_push_at: "length (push_at to x xss) = length xss"
  by (simp add: push_at_def)

lemma overflow_lines_Suc:
  "overflow_lines oid (Suc m) = overflow_lines oid m @
     (if (of_nat m :: 16 word) = - 1 then [''error: way with '' @ show_nat oid @ '' nodes''] else [])"
  by (simp add: overflow_lines_def)

lemma walk_inv_start: "walk_inv w oid b [] (walk_start point0 b)"
  by (simp add: walk_inv_def walk_start_def internal_nodes_def overflow_lines_def positions_at_def)

lemma connect_step_other:
  "\<not> is_multi w x \<Longrightarrow>
   snd (connect_step geo_distance w oid widx (x, pos) (s, b)) = b \<and>
   from_node (fst (connect_step geo_distance w oid widx (x, pos) (s, b))) = from_node s \<and>
   pos_i (fst (connect_step geo_distance w oid widx (x, pos) (s, b))) = pos_i s"
  by (simp add: connect_step_def Let_def)

lemma connect_step_multi:
  assumes "is_multi w x" and "r = connect_step geo_distance w oid widx (x, pos) (s, b)"
  shows "from_node (fst r) = Some (get_node_idx w x)"
    and "pos_i (fst r) = pos_i s + 1"
    and "b_way_nodes (snd r) = push_last (get_node_idx w x) (b_way_nodes b)"
    and "b_way_node_dist (snd r) =
           (if from_node s = None then b_way_node_dist b
            else push_last (word_of_int (cround
                   (case pred_pos s of Some p \<Rightarrow> distance s + geo_distance pos p
                    | None \<Rightarrow> distance s))) (b_way_node_dist b))"
    and "console (snd r) = console b @
           (if pos_i s = - 1 then [''error: way with '' @ show_nat oid @ '' nodes''] else [])"
    and "b_node_ways (snd r) = push_at (get_node_idx w x) widx (b_node_ways b)"
    and "b_node_in_way_idx (snd r) = push_at (get_node_idx w x) (pos_i s) (b_node_in_way_idx b)"
  unfolding assms(2) using assms(1)
  by (simp_all add: connect_step_def Let_def)

lemma walk_inv_step:
  assumes "walk_inv w oid b zs sb"
  shows "walk_inv w oid b (zs @ [z])
           (connect_step geo_distance w oid (length (b_way_nodes b)) z sb)"
proof -
  obtain s1 b1 where sb: "sb = (s1, b1)" by (cases sb)
  obtain x pos where z: "z = (x, pos)" by (cases z)
  let ?tos = "internal_nodes w zs"
  let ?r = "connect_step geo_distance w oid (length (b_way_nodes b)) (x, pos) (s1, b1)"
  obtain s2 b2 where r: "?r = (s2, b2)" by (cases ?r)
  from assms obtain ds where ds: "b_way_node_dist b1 = b_way_node_dist b @ [ds]"
      "length ds = length ?tos - 1"
    by (auto simp: walk_inv_def sb)
  from assms have inv:
    "b_way_nodes b1 = b_way_nodes b @ [?tos]"
    "(from_node s1 = None) = (?tos = [])"
    "pos_i s1 = of_nat (length ?tos)"
    "console b1 = console b @ overflow_lines oid (length ?tos)"
    "length (b_node_ways b1) = length (b_node_ways b)"
    "length (b_node_in_way_idx b1) = length (b_node_in_way_idx b)"
    and nw: "\<And>n. n < length (b_node_ways b) \<Longrightarrow> b_node_ways b1 ! n =
        b_node_ways b ! n @ map (\<lambda>k. length (b_way_nodes b)) (positions_at ?tos n)"
    and ni: "\<And>n. n < length (b_node_in_way_idx b) \<Longrightarrow> b_node_in_way_idx b1 ! n =
        b_node_in_way_idx b ! n @ map of_nat (positions_at ?tos n)"
    by (simp_all add: walk_inv_def sb)
  show ?thesis
  proof (cases "is_multi w x")
    case False
    then have "internal_nodes w (zs @ [z]) = ?tos"
      by (simp add: internal_nodes_def z)
    moreover have "b2 = b1" "from_node s2 = from_node s1" "pos_i s2 = pos_i s1"
      using connect_step_other [OF False, of geo_distance oid "length (b_way_nodes b)" pos s1 b1]
      by (simp_all add: r)
    ultimately show ?thesis
      using assms by (simp add: walk_inv_def sb z r)
  next
    case True
    define to where "to = get_node_idx w x"
    have tos: "internal_nodes w (zs @ [(x, pos)]) = ?tos @ [to]"
      using True by (simp add: internal_nodes_def to_def)
    note st = connect_step_multi [OF True r [symmetric], simplified, folded to_def]
    have c1: "b_way_nodes b2 = b_way_nodes b @ [?tos @ [to]]"
      using st(3) by (simp add: inv push_last_snoc)
    have c2: "\<exists>ds'. b_way_node_dist b2 = b_way_node_dist b @ [ds'] \<and>
                length ds' = length (?tos @ [to]) - 1"
    proof (cases "?tos = []")
      case True
      then have "from_node s1 = None" by (simp add: inv)
      then show ?thesis
        using st(4) ds True by simp
    next
      case False
      then have "from_node s1 \<noteq> None" by (simp add: inv)
      then obtain d where "b_way_node_dist b2 = push_last d (b_way_node_dist b1)"
        using st(4) by auto
      then show ?thesis
        using ds False by (simp add: push_last_snoc)
    qed
    have c3: "(from_node s2 = None) = (?tos @ [to] = [])"
      using st(1) by simp
    have c4: "pos_i s2 = of_nat (length (?tos @ [to]))"
      using st(2) by (simp add: inv)
    have c5: "console b2 = console b @ overflow_lines oid (length (?tos @ [to]))"
      using st(5) by (simp add: inv overflow_lines_Suc)
    have c6: "length (b_node_ways b2) = length (b_node_ways b)"
         "length (b_node_in_way_idx b2) = length (b_node_in_way_idx b)"
      using st(6,7) by (simp_all add: inv length_push_at)
    have c7: "b_node_ways b2 ! n =
        b_node_ways b ! n @ map (\<lambda>k. length (b_way_nodes b)) (positions_at (?tos @ [to]) n)"
      if "n < length (b_node_ways b)" for n
      using that st(6) nw [OF that] by (simp add: nth_push_at inv positions_at_snoc)
    have c8: "b_node_in_way_idx b2 ! n =
        b_node_in_way_idx b ! n @ map of_nat (positions_at (?tos @ [to]) n)"
      if "n < length (b_node_in_way_idx b)" for n
      using that st(7) ni [OF that] by (simp add: nth_push_at inv positions_at_snoc)
    show ?thesis
      unfolding walk_inv_def sb z r
      using c1 c2 c3 c4 c5 c6 c7 c8 by (simp add: tos)
  qed
qed

lemma walk_inv_fold:
  "walk_inv w oid b zs
     (fold (connect_step geo_distance w oid (length (b_way_nodes b))) zs (walk_start point0 b))"
  by (induction zs rule: rev_induct) (simp_all add: walk_inv_start walk_inv_step)

lemma connect_way_effect:
  fixes t :: "nat \<times> nat list \<times> 'pt list" and w :: "('s, 'pt) ways" and b :: builder
    and geo_distance :: "'pt \<Rightarrow> 'pt \<Rightarrow> real" and point0 :: 'pt
  defines "b1 \<equiv> connect_way geo_distance point0 w t b"
  shows "b_way_nodes b1 = b_way_nodes b @ [way_internal_nodes w t]"
    and "\<exists>ds. b_way_node_dist b1 = b_way_node_dist b @ [ds] \<and>
           length ds = length (way_internal_nodes w t) - 1"
    and "console b1 = console b @ way_overflow_lines w t"
    and "length (b_node_ways b1) = length (b_node_ways b)"
    and "length (b_node_in_way_idx b1) = length (b_node_in_way_idx b)"
    and "\<And>n. n < length (b_node_ways b) \<Longrightarrow> b_node_ways b1 ! n =
        b_node_ways b ! n @
        map (\<lambda>k. length (b_way_nodes b)) (positions_at (way_internal_nodes w t) n)"
    and "\<And>n. n < length (b_node_in_way_idx b) \<Longrightarrow> b_node_in_way_idx b1 ! n =
        b_node_in_way_idx b ! n @ map of_nat (positions_at (way_internal_nodes w t) n)"
proof -
  obtain oid ns ps where t: "t = (oid, ns, ps)" by (cases t)
  let ?r = "fold (connect_step geo_distance w oid (length (b_way_nodes b))) (zip ns ps)
              (walk_start point0 b)"
  have b1: "b1 = snd ?r"
    by (simp add: b1_def connect_way_def t walk_start_def Let_def)
  have "walk_inv w oid b (zip ns ps) ?r"
    by (rule walk_inv_fold)
  then have inv: "walk_inv w oid b (zip ns ps) (fst ?r, b1)"
    by (simp add: b1)
  show "b_way_nodes b1 = b_way_nodes b @ [way_internal_nodes w t]"
    and "\<exists>ds. b_way_node_dist b1 = b_way_node_dist b @ [ds] \<and>
           length ds = length (way_internal_nodes w t) - 1"
    and "console b1 = console b @ way_overflow_lines w t"
    and "length (b_node_ways b1) = length (b_node_ways b)"
    and "length (b_node_in_way_idx b1) = length (b_node_in_way_idx b)"
    and "\<And>n. n < length (b_node_ways b) \<Longrightarrow> b_node_ways b1 ! n =
        b_node_ways b ! n @
        map (\<lambda>k. length (b_way_nodes b)) (positions_at (way_internal_nodes w t) n)"
    and "\<And>n. n < length (b_node_in_way_idx b) \<Longrightarrow> b_node_in_way_idx b1 ! n =
        b_node_in_way_idx b ! n @ map of_nat (positions_at (way_internal_nodes w t) n)"
    using inv by (simp_all add: walk_inv_def way_internal_nodes_def way_overflow_lines_def t)
qed

lemma zip_map_same: "zip (map f xs) (map g xs) = map (\<lambda>x. (f x, g x)) xs"
  by (induction xs) simp_all

lemma connect_way_entries:
  assumes "aligned b" and "n < length (b_node_ways b)"
  shows "entries (connect_way geo_distance point0 w t b) n =
         entries b n @ map (\<lambda>k. (length (b_way_nodes b), of_nat k))
                         (positions_at (way_internal_nodes w t) n)"
  using assms connect_way_effect(6,7) [where n = n and b = b and w = w and t = t
      and geo_distance = geo_distance and ?point0.0 = point0]
  by (simp add: entries_def aligned_def zip_map_same)

lemma connect_way_aligned:
  assumes "aligned b"
  shows "aligned (connect_way geo_distance point0 w t b)"
  using assms connect_way_effect(4,5,6,7) [where b = b and w = w and t = t
      and geo_distance = geo_distance and ?point0.0 = point0]
  by (simp add: aligned_def)

lemma in_positions_at: "k < length tos \<Longrightarrow> k \<in> set (positions_at tos (tos ! k))"
  by (simp add: positions_at_def)

lemma connect_inv_step:
  fixes t :: "nat \<times> nat list \<times> 'pt list"
  assumes inv: "connect_inv w b ts b1"
  shows "connect_inv w b (ts @ [t]) (connect_way geo_distance point0 w t b1)"
proof -
  let ?b2 = "connect_way geo_distance point0 w t b1"
  let ?tos = "way_internal_nodes w t"
  note eff = connect_way_effect [where b = b1 and w = w and t = t
      and geo_distance = geo_distance and ?point0.0 = point0]
  from inv have al: "aligned b1" and len: "length (b_node_ways b1) = length (b_node_ways b)"
    and nodes: "b_way_nodes b1 = b_way_nodes b @ map (way_internal_nodes w) ts"
    and cons: "console b1 = console b @ concat (map (way_overflow_lines w) ts)"
    and mono: "\<And>n. n < length (b_node_ways b) \<Longrightarrow> set (entries b n) \<subseteq> set (entries b1 n)"
    and mem: "\<And>j k. j < length ts \<Longrightarrow> k < length (way_internal_nodes w (ts ! j)) \<Longrightarrow>
        way_internal_nodes w (ts ! j) ! k < length (b_node_ways b) \<Longrightarrow>
        (length (b_way_nodes b) + j, of_nat k)
          \<in> set (entries b1 (way_internal_nodes w (ts ! j) ! k))"
    by (simp_all add: connect_inv_def)
  from inv obtain dss where dss: "b_way_node_dist b1 = b_way_node_dist b @ dss"
      "list_all2 (\<lambda>ds t. length ds = length (way_internal_nodes w t) - 1) dss ts"
    by (auto simp: connect_inv_def)
  have ent: "entries ?b2 n = entries b1 n @
      map (\<lambda>k. (length (b_way_nodes b1), of_nat k)) (positions_at ?tos n)"
    if "n < length (b_node_ways b)" for n
    using that al len by (simp add: connect_way_entries)
  have c1: "b_way_nodes ?b2 = b_way_nodes b @ map (way_internal_nodes w) (ts @ [t])"
    using eff(1) nodes by simp
  have c2: "\<exists>dss'. b_way_node_dist ?b2 = b_way_node_dist b @ dss' \<and>
        list_all2 (\<lambda>ds t. length ds = length (way_internal_nodes w t) - 1) dss' (ts @ [t])"
  proof -
    from eff(2) obtain ds where ds: "b_way_node_dist ?b2 = b_way_node_dist b1 @ [ds]"
        "length ds = length ?tos - 1"
      by auto
    have "list_all2 (\<lambda>ds t. length ds = length (way_internal_nodes w t) - 1)
            (dss @ [ds]) (ts @ [t])"
      using dss(2) ds(2) by (intro list_all2_appendI) simp_all
    then show ?thesis
      using ds(1) dss(1) by (intro exI [of _ "dss @ [ds]"]) simp
  qed
  have c3: "console ?b2 = console b @ concat (map (way_overflow_lines w) (ts @ [t]))"
    using eff(3) cons by simp
  have c4: "aligned ?b2"
    using al by (rule connect_way_aligned)
  have c5: "length (b_node_ways ?b2) = length (b_node_ways b)"
    using eff(4) len by simp
  have c6: "set (entries b n) \<subseteq> set (entries ?b2 n)" if "n < length (b_node_ways b)" for n
    using mono [OF that] ent [OF that] by auto
  have c7: "(length (b_way_nodes b) + j, of_nat k)
          \<in> set (entries ?b2 (way_internal_nodes w ((ts @ [t]) ! j) ! k))"
    if j: "j < length (ts @ [t])" and k: "k < length (way_internal_nodes w ((ts @ [t]) ! j))"
      and n: "way_internal_nodes w ((ts @ [t]) ! j) ! k < length (b_node_ways b)" for j k
  proof (cases "j < length ts")
    case True
    then have tj: "(ts @ [t]) ! j = ts ! j"
      by (simp add: nth_append)
    have "(length (b_way_nodes b) + j, of_nat k)
          \<in> set (entries b1 (way_internal_nodes w (ts ! j) ! k))"
      using mem [OF True] k n by (simp add: tj)
    then show ?thesis
      using ent [of "way_internal_nodes w (ts ! j) ! k"] n by (simp add: tj)
  next
    case False
    then have jl: "j = length ts"
      using j by simp
    then have tj: "(ts @ [t]) ! j = t"
      by simp
    have "k \<in> set (positions_at ?tos (?tos ! k))"
      using k by (simp add: tj in_positions_at)
    then have "(length (b_way_nodes b1), of_nat k) \<in> set (entries ?b2 (?tos ! k))"
      using ent [of "?tos ! k"] n by (auto simp: tj image_iff)
    then show ?thesis
      by (simp add: tj nodes jl)
  qed
  show ?thesis
    unfolding connect_inv_def using c1 c2 c3 c4 c5 c6 c7 by blast
qed

lemma connect_inv_fold:
  fixes ts :: "(nat \<times> nat list \<times> 'pt list) list"
  assumes "aligned b"
  shows "connect_inv w b ts (fold (connect_way geo_distance point0 w) ts b)"
proof (induction ts rule: rev_induct)
  case Nil
  show ?case
    using assms by (simp add: connect_inv_def)
next
  case (snoc t ts)
  then show ?case
    by (simp add: connect_inv_step)
qed

lemma connect_ways_built:
  "connect_ways geo_distance point0 w =
     ((with_nodes w)\<lparr>way_nodes := b_way_nodes (built geo_distance point0 w),
        way_node_dist := b_way_node_dist (built geo_distance point0 w),
        node_ways := node_ways w @ b_node_ways (built geo_distance point0 w),
        node_in_way_idx := node_in_way_idx w @ b_node_in_way_idx (built geo_distance point0 w)\<rparr>,
      console (built geo_distance point0 w))"
  by (simp add: connect_ways_def built_def with_nodes_def builder_start_def survey_input_def Let_def)

lemma aligned_start: "aligned (builder_start w)"
  by (simp add: aligned_def builder_start_def resize_def)

lemma built_inv:
  "connect_inv (with_nodes w) (builder_start (with_nodes w)) (survey_input w)
     (built geo_distance point0 w)"
  unfolding built_def by (rule connect_inv_fold) (rule aligned_start)

lemma sorted_set_bits: "sorted_wrt (<) (set_bits bs)"
  by (simp add: set_bits_def sorted_wrt_filter)

lemma set_set_bits: "set (set_bits bs) = {i. bitvec_test bs i}"
  by (auto simp: set_bits_def bitvec_test_def)

lemma count_list_distinct: "distinct xs \<Longrightarrow> count_list xs x = (if x \<in> set xs then 1 else 0)"
  by (induction xs) auto

lemma count_set_bits: "count_list (set_bits bs) i = (if bitvec_test bs i then 1 else 0)"
  using sorted_set_bits [of bs]
  by (simp add: count_list_distinct strict_sorted_iff set_set_bits)

text \<open>
  C5: on a store without internal nodes, \<^verbatim>\<open>connect_ways\<close> creates the internal nodes in
  strictly ascending order of their external ids, exactly one for every external id whose
  bit is set and none for any other id. Where the counting pass has set the bit of exactly
  the ids that two or more ways refer to, this is exactly one internal node for every id
  that two or more ways refer to and none for an id that one way refers to.
\<close>

theorem connect_ways_creates_nodes:
  assumes "node_to_osm w = []"
  shows "sorted_wrt (<) (node_to_osm (fst (connect_ways geo_distance point0 w))) \<and>
    (\<forall>i. count_list (node_to_osm (fst (connect_ways geo_distance point0 w))) i =
          (if is_multi w i then 1 else 0)) \<and>
    ((\<forall>i. is_multi w i = (2 \<le> way_refs w i)) \<longrightarrow>
     (\<forall>i. count_list (node_to_osm (fst (connect_ways geo_distance point0 w))) i =
          (if 2 \<le> way_refs w i then 1 else 0)))"
  using assms
  by (simp add: connect_ways_built with_nodes_def sorted_set_bits count_set_bits is_multi_def)

lemma built_ways:
  "b_way_nodes (built geo_distance point0 w) =
     way_nodes w @ map (way_internal_nodes (with_nodes w)) (survey_input w)"
  using built_inv [of w geo_distance point0]
  by (simp add: connect_inv_def builder_start_def with_nodes_def)



lemma way_internal_nodes_cong:
  "node_to_osm w2 = node_to_osm w1 \<Longrightarrow> node_way_counter_multi w2 = node_way_counter_multi w1 \<Longrightarrow>
   way_internal_nodes w2 t = way_internal_nodes w1 t"
  by (cases t) (simp add: way_internal_nodes_def internal_nodes_def is_multi_def get_node_idx_def
      cong: filter_cong map_cong)

lemma internal_in_range:
  assumes "x \<in> set (way_internal_nodes (with_nodes w) t)"
  shows "x < length (node_to_osm (with_nodes w))"
proof -
  obtain oid ns ps where t: "t = (oid, ns, ps)" by (cases t)
  from assms obtain y where y: "is_multi (with_nodes w) y" "x = get_node_idx (with_nodes w) y"
    by (auto simp: way_internal_nodes_def internal_nodes_def t)
  from y(1) have "y \<in> set (node_to_osm (with_nodes w))"
    by (simp add: is_multi_def with_nodes_def set_set_bits)
  then show ?thesis
    unfolding y(2) get_node_idx_def by (rule index_of_less)
qed

lemma overflow_line_printed:
  assumes "65535 < m"
  shows "''error: way with '' @ show_nat oid @ '' nodes'' \<in> set (overflow_lines oid m)"
proof -
  have "(of_nat 65535 :: 16 word) = - 1"
    by simp
  moreover have "(65535 :: nat) \<in> set [0..<m]"
    using assms by simp
  ultimately show ?thesis
    unfolding overflow_lines_def by (intro in_concat_map [of 65535]) simp_all
qed

text \<open>
  C9: no way is rejected: on a store without ways every surveyed way keeps all its
  internal nodes, however many. The position stored for the \<open>k\<close>-th of them is \<open>k\<close>
  modulo \<open>2 ^ 16\<close>. A way with more than 65535 internal nodes has its line printed, and
  the result is a store all the same: the model of \<^verbatim>\<open>connect_ways\<close> has no error.
\<close>

theorem connect_ways_position_overflow:
  fixes w :: "('s, 'pt) ways"
  assumes "way_nodes w = []" and "node_ways w = []" and "node_in_way_idx w = []"
  shows "\<forall>j<length (survey_input w).
    way_nodes (fst (connect_ways geo_distance point0 w)) ! j =
      way_internal_nodes (fst (connect_ways geo_distance point0 w)) (survey_input w ! j) \<and>
    (\<forall>k<length (way_nodes (fst (connect_ways geo_distance point0 w)) ! j).
       (j, of_nat k) \<in> set (zip
          (node_ways (fst (connect_ways geo_distance point0 w)) !
             (way_nodes (fst (connect_ways geo_distance point0 w)) ! j ! k))
          (node_in_way_idx (fst (connect_ways geo_distance point0 w)) !
             (way_nodes (fst (connect_ways geo_distance point0 w)) ! j ! k))) \<and>
       unat (of_nat k :: 16 word) = k mod 2 ^ 16) \<and>
    (65535 < length (way_nodes (fst (connect_ways geo_distance point0 w)) ! j) \<longrightarrow>
       ''error: way with '' @ show_nat (fst (survey_input w ! j)) @ '' nodes''
         \<in> set (snd (connect_ways geo_distance point0 w)))"
proof (intro allI impI)
  fix j
  assume j: "j < length (survey_input w)"
  let ?w1 = "with_nodes w"
  let ?b = "built geo_distance point0 w"
  let ?w' = "fst (connect_ways geo_distance point0 w)"
  let ?t = "survey_input w ! j"
  let ?tos = "way_internal_nodes ?w1 ?t"
  note inv = built_inv [of w geo_distance point0, unfolded connect_inv_def]
  have same: "way_internal_nodes ?w' ?t = ?tos"
    by (rule way_internal_nodes_cong) (simp_all add: connect_ways_built with_nodes_def)
  have nodes: "way_nodes ?w' ! j = ?tos"
    using built_ways [of geo_distance point0 w] assms(1) j
    by (simp add: connect_ways_built)
  have N: "length (b_node_ways (builder_start ?w1)) = length (node_to_osm ?w1)"
    by (simp add: builder_start_def resize_def)
  have pos: "(j, of_nat k) \<in> set (zip (node_ways ?w' ! (?tos ! k)) (node_in_way_idx ?w' ! (?tos ! k)))"
    if k: "k < length ?tos" for k
  proof -
    have "?tos ! k < length (node_to_osm ?w1)"
      using k by (intro internal_in_range [of _ w ?t]) simp
    then have "(length (b_way_nodes (builder_start ?w1)) + j, of_nat k) \<in> set (entries ?b (?tos ! k))"
      using inv j k N by simp
    then show ?thesis
      using assms by (simp add: connect_ways_built entries_def builder_start_def with_nodes_def)
  qed
  have out: "''error: way with '' @ show_nat (fst ?t) @ '' nodes''
         \<in> set (snd (connect_ways geo_distance point0 w))"
    if big: "65535 < length ?tos"
  proof -
    have "''error: way with '' @ show_nat (fst ?t) @ '' nodes'' \<in> set (way_overflow_lines ?w1 ?t)"
      unfolding way_overflow_lines_def using big by (rule overflow_line_printed)
    moreover have "?t \<in> set (survey_input w)"
      using j by simp
    ultimately have "''error: way with '' @ show_nat (fst ?t) @ '' nodes''
        \<in> set (concat (map (way_overflow_lines ?w1) (survey_input w)))"
      by (intro in_concat_map [of ?t])
    then show ?thesis
      using inv by (simp add: connect_ways_built builder_start_def)
  qed
  show "way_nodes ?w' ! j = way_internal_nodes ?w' ?t \<and>
    (\<forall>k<length (way_nodes ?w' ! j).
       (j, of_nat k) \<in> set (zip (node_ways ?w' ! (way_nodes ?w' ! j ! k))
          (node_in_way_idx ?w' ! (way_nodes ?w' ! j ! k))) \<and>
       unat (of_nat k :: 16 word) = k mod 2 ^ 16) \<and>
    (65535 < length (way_nodes ?w' ! j) \<longrightarrow>
       ''error: way with '' @ show_nat (fst ?t) @ '' nodes''
         \<in> set (snd (connect_ways geo_distance point0 w)))"
    using pos out by (simp add: nodes same unat_of_nat)
qed

lemma survey_fresh:
  "node_to_osm survey = []" "way_nodes survey = []" "way_node_dist survey = []"
  "node_ways survey = []" "node_in_way_idx survey = []"
  by (simp_all add: survey_def empty_ways_def)

lemma survey_counted: "is_multi survey i = (2 \<le> way_refs survey i)"
proof -
  have "i < 4 \<longleftrightarrow> i = 0 \<or> i = 1 \<or> i = 2 \<or> i = 3"
    by auto
  then show ?thesis
    by (auto simp: is_multi_def bitvec_test_def way_refs_def survey_def empty_ways_def)
qed

theorem connect_ways_creates_nodes_witness:
  "node_to_osm survey = [] \<and> (\<forall>i. is_multi survey i = (2 \<le> way_refs survey i)) \<and>
   way_refs survey 1 = 2 \<and> way_refs survey 2 = 1 \<and>
   node_to_osm (fst (connect_ways line_distance 0 survey)) = [1, 3] \<and>
   count_list (node_to_osm (fst (connect_ways line_distance 0 survey))) 1 = 1 \<and>
   count_list (node_to_osm (fst (connect_ways line_distance 0 survey))) 2 = 0"
  using connect_ways_creates_nodes [of survey line_distance 0] survey_counted
  by (simp add: survey_eval survey_fresh) (simp add: way_refs_def survey_def empty_ways_def)



lemma ring_survey_simps:
  "way_nodes ring_survey = []" "node_ways ring_survey = []" "node_in_way_idx ring_survey = []"
  "survey_input ring_survey = [(100, replicate ring_length 5, replicate ring_length 0)]"
  "node_to_osm ring_survey = []"
  "node_way_counter_multi ring_survey = [False, False, False, False, False, True]"
  by (simp_all add: ring_survey_def empty_ways_def survey_input_def)

lemma ring_internal_nodes:
  "way_internal_nodes (fst (connect_ways line_distance 0 ring_survey))
     (100, replicate ring_length 5, replicate ring_length 0) = replicate ring_length 0"
proof -
  have "way_internal_nodes (fst (connect_ways line_distance 0 ring_survey))
     (100, replicate ring_length 5, replicate ring_length 0) =
     way_internal_nodes (with_nodes ring_survey)
     (100, replicate ring_length 5, replicate ring_length 0)"
    by (rule way_internal_nodes_cong) (simp_all add: connect_ways_built with_nodes_def)
  also have "\<dots> = replicate ring_length 0"
    by (simp add: way_internal_nodes_def internal_nodes_def is_multi_def bitvec_test_def
        get_node_idx_def with_nodes_def ring_survey_simps set_bits_def upt_rec)
  finally show ?thesis .
qed

theorem connect_ways_overflow_witness:
  "way_nodes ring_survey = [] \<and> node_ways ring_survey = [] \<and> node_in_way_idx ring_survey = [] \<and>
   length (way_nodes (fst (connect_ways line_distance 0 ring_survey)) ! 0) = 65536 \<and>
   ''error: way with 100 nodes'' \<in> set (snd (connect_ways line_distance 0 ring_survey))"
proof -
  have "way_nodes (fst (connect_ways line_distance 0 ring_survey)) ! 0 = replicate ring_length 0"
    using connect_ways_position_overflow [of ring_survey line_distance 0]
    by (simp add: ring_survey_simps ring_internal_nodes)
  then have "length (way_nodes (fst (connect_ways line_distance 0 ring_survey)) ! 0) = 65536"
    by (simp add: ring_length_def)
  moreover have "show_nat 100 = ''100''"
    by (simp add: digit_char_def)
  ultimately show ?thesis
    using connect_ways_position_overflow [of ring_survey line_distance 0]
    by (simp add: ring_survey_simps)
qed

section \<open>Properties of \<^verbatim>\<open>build_components\<close>\<close>

lemma islands_eval:
  "build_components islands = Some (islands\<lparr>way_component := [Some 0, Some 0, Some 1, Some 2, Some 2]\<rparr>)"
  by (simp add: build_components_def islands_def empty_ways_def n_ways_def resize_def
      component_step_def flood_fill_def flood_fill_loop.simps visit_def q_insert_def
      way_candidates_def upt_rec)

lemma unlabelled_update:
  "y < length wc \<Longrightarrow> wc ! y = None \<Longrightarrow> Suc (unlabelled (wc[y := Some c])) = unlabelled wc"
proof (induction wc arbitrary: y)
  case Nil
  then show ?case by simp
next
  case (Cons a wc)
  then show ?case
    by (cases y) (auto simp: unlabelled_def)
qed

lemma length_q_insert: "length (q_insert x q) \<le> Suc (length q)"
  by (simp add: q_insert_def)

lemma set_q_insert: "set (q_insert x q) = insert x (set q)"
  by (auto simp: q_insert_def)

lemma visit_measure:
  "y < length (fst st) \<Longrightarrow> fill_measure (visit c y st) \<le> fill_measure st"
  using unlabelled_update [of y "fst st" c] length_q_insert [of y "snd st"]
  by (cases st) (auto simp: visit_def fill_measure_def)

lemma visit_length: "length (fst (visit c y st)) = length (fst st)"
  by (cases st) (simp add: visit_def)

lemma fold_visit_length: "length (fst (fold (visit c) cs st)) = length (fst st)"
  by (induction cs arbitrary: st) (simp_all add: visit_length)

lemma fold_visit_measure:
  "\<forall>y\<in>set cs. y < length (fst st) \<Longrightarrow> fill_measure (fold (visit c) cs st) \<le> fill_measure st"
proof (induction cs arbitrary: st)
  case Nil
  then show ?case by simp
next
  case (Cons y cs)
  have "fill_measure (fold (visit c) cs (visit c y st)) \<le> fill_measure (visit c y st)"
    using Cons.prems by (intro Cons.IH) (simp add: visit_length)
  also have "\<dots> \<le> fill_measure st"
    using Cons.prems by (intro visit_measure) simp
  finally show ?case by simp
qed

lemma fold_visit_nth:
  "y < length (fst st) \<Longrightarrow>
   fst (fold (visit c) cs st) ! y =
     (if y \<in> set cs \<and> fst st ! y = None then Some c else fst st ! y)"
proof (induction cs arbitrary: st)
  case Nil
  then show ?case by simp
next
  case (Cons z cs)
  obtain wc q where st: "st = (wc, q)" by (cases st)
  have len: "y < length (fst (visit c z st))"
    using Cons.prems by (simp add: visit_length)
  have v: "fst (visit c z st) ! y = (if y = z \<and> wc ! y = None then Some c else wc ! y)"
    using Cons.prems by (auto simp: visit_def st nth_list_update)
  show ?case
    using Cons.IH [OF len] v by (auto simp: st)
qed

lemma fold_visit_queue:
  "set (snd (fold (visit c) cs st)) = set (snd st) \<union> {y \<in> set cs. fst st ! y = None}"
  if "\<forall>y\<in>set cs. y < length (fst st)"
  using that
proof (induction cs arbitrary: st)
  case Nil
  then show ?case by simp
next
  case (Cons z cs)
  obtain wc q where st: "st = (wc, q)" by (cases st)
  have len: "\<forall>y\<in>set cs. y < length (fst (visit c z st))"
    using Cons.prems by (simp add: visit_length)
  have z: "z < length wc"
    using Cons.prems by (simp add: st)
  have q: "set (snd (visit c z st)) = set q \<union> (if wc ! z = None then {z} else {})"
    by (auto simp: visit_def st set_q_insert)
  have n: "fst (visit c z st) ! y = None \<longleftrightarrow> wc ! y = None \<and> \<not> (y = z \<and> wc ! z = None)"
    if "y < length wc" for y
    using that z by (auto simp: visit_def st nth_list_update)
  have "{y \<in> set cs. fst (visit c z st) ! y = None} =
        {y \<in> set cs. wc ! y = None \<and> \<not> (y = z \<and> wc ! z = None)}"
    using Cons.prems n by (auto simp: st)
  then show ?case
    using Cons.IH [OF len] q by (auto simp: st)
qed

lemma fill_inv_step:
  assumes ok: "candidates_ok w" and inv: "fill_inv w c s wc0 (wc, x # q)"
  shows "fill_inv w c s wc0 (fold (visit c) (way_candidates w x) (wc, q))"
proof -
  let ?n = "n_ways w"
  let ?cs = "way_candidates w x"
  let ?st = "fold (visit c) ?cs (wc, q)"
  obtain wc1 q1 where st: "?st = (wc1, q1)" by (cases ?st)
  from inv have len: "length wc = ?n"
    and x: "x < ?n" "wc ! x = Some c"
    and q: "\<And>y. y \<in> set q \<Longrightarrow> y < ?n \<and> wc ! y = Some c"
    and old: "\<And>y. y < ?n \<Longrightarrow> wc ! y = wc0 ! y \<or> (wc0 ! y = None \<and> wc ! y = Some c)"
    and reach: "\<And>y. y < ?n \<Longrightarrow> wc ! y = Some c \<Longrightarrow> (s, y) \<in> (touching w)\<^sup>*"
    and closed: "\<And>z y. z < ?n \<Longrightarrow> wc ! z = Some c \<Longrightarrow> z \<notin> set (x # q) \<Longrightarrow>
        y \<in> set (way_candidates w z) \<Longrightarrow> wc ! y \<noteq> None"
    by (auto simp: fill_inv_def)
  have cs: "\<forall>y\<in>set ?cs. y < length (fst (wc, q))"
    using ok x(1) len by (simp add: candidates_ok_def)
  have len1: "length wc1 = ?n"
    using fold_visit_length [of c ?cs "(wc, q)"] len by (simp add: st)
  have nth1: "wc1 ! y = (if y \<in> set ?cs \<and> wc ! y = None then Some c else wc ! y)"
    if "y < ?n" for y
    using fold_visit_nth [of y "(wc, q)" c ?cs] that len by (simp add: st)
  have q1: "set q1 = set q \<union> {y \<in> set ?cs. wc ! y = None}"
    using fold_visit_queue [OF cs, of c] by (simp add: st)
  have cs_n: "\<And>y. y \<in> set ?cs \<Longrightarrow> y < ?n"
    using cs len by simp
  have c2: "y < ?n \<and> wc1 ! y = Some c" if "y \<in> set q1" for y
    using that q1 q [of y] cs_n [of y] nth1 [of y] by auto
  have c3: "wc1 ! y = wc0 ! y \<or> (wc0 ! y = None \<and> wc1 ! y = Some c)" if "y < ?n" for y
    using old [OF that] nth1 [OF that] by auto
  have c4: "(s, y) \<in> (touching w)\<^sup>*" if "y < ?n" and "wc1 ! y = Some c" for y
  proof (cases "wc ! y = Some c")
    case True
    then show ?thesis using reach that(1) by simp
  next
    case False
    then have "y \<in> set ?cs"
      using nth1 [OF that(1)] that(2) by (auto split: if_splits)
    then have "(x, y) \<in> touching w"
      using x(1) by (simp add: touching_def)
    moreover have "(s, x) \<in> (touching w)\<^sup>*"
      using reach x by simp
    ultimately show ?thesis by simp
  qed
  have c5: "wc1 ! y \<noteq> None"
    if z: "z < ?n" "wc1 ! z = Some c" "z \<notin> set q1" and y: "y \<in> set (way_candidates w z)" for z y
  proof (cases "z = x")
    case True
    then show ?thesis
      using y nth1 [of y] cs_n [of y] by auto
  next
    case False
    have "wc ! z = Some c"
      using z q1 nth1 [OF z(1)] by (auto split: if_splits)
    moreover have "z \<notin> set (x # q)"
      using False z(3) q1 by simp
    ultimately have "wc ! y \<noteq> None"
      using closed z(1) y by blast
    moreover have "y < ?n"
      using ok z(1) y by (simp add: candidates_ok_def)
    ultimately show ?thesis
      using nth1 [of y] by auto
  qed
  show ?thesis
    unfolding st fill_inv_def using len1 c2 c3 c4 c5 by blast
qed

lemma flood_fill_loop_correct:
  assumes ok: "candidates_ok w" and inv: "fill_inv w c s wc0 st"
  shows "\<exists>wc1. flood_fill_loop w c st = Some wc1 \<and> fill_inv w c s wc0 (wc1, [])"
  using inv
proof (induction "fill_measure st" arbitrary: st rule: less_induct)
  case less
  obtain wc q where st: "st = (wc, q)" by (cases st)
  show ?case
  proof (cases q)
    case Nil
    then show ?thesis
      using less.prems by (simp add: st flood_fill_loop.simps)
  next
    case (Cons x q1)
    let ?st1 = "fold (visit c) (way_candidates w x) (wc, q1)"
    have inv1: "fill_inv w c s wc0 ?st1"
      using ok less.prems unfolding st Cons by (rule fill_inv_step)
    have x: "x < n_ways w" and len: "length wc = n_ways w"
      using less.prems by (simp_all add: fill_inv_def st Cons)
    have "\<forall>y\<in>set (way_candidates w x). y < length (fst (wc, q1))"
      using ok x len by (simp add: candidates_ok_def)
    then have "fill_measure ?st1 \<le> fill_measure (wc, q1)"
      by (rule fold_visit_measure)
    then have "fill_measure ?st1 < fill_measure st"
      by (simp add: st Cons fill_measure_def)
    from less.hyps [OF this inv1] show ?thesis
      by (simp add: st Cons flood_fill_loop.simps [of w c "(wc, x # q1)"])
  qed
qed

lemma touching_back:
  "sym (touching w) \<Longrightarrow> (x, y) \<in> (touching w)\<^sup>* \<Longrightarrow> (y, x) \<in> (touching w)\<^sup>*"
  using sym_rtrancl [of "touching w"] by (auto dest: symD)

lemma component_step_correct:
  assumes ok: "candidates_ok w" and sy: "sym (touching w)" and i: "i < n_ways w"
    and inv: "labelled_inv w i st"
  shows "\<exists>st1. component_step w i st = Some st1 \<and> labelled_inv w (Suc i) st1"
proof -
  let ?n = "n_ways w"
  obtain wc k where st: "st = (wc, k)" by (cases st)
  from inv have inv1: "length wc = ?n \<and>
     (\<forall>y<i. wc ! y \<noteq> None) \<and>
     (\<forall>y<?n. \<forall>c. wc ! y = Some c \<longrightarrow> c < k) \<and>
     (\<forall>x<?n. wc ! x \<noteq> None \<longrightarrow> (\<forall>y\<in>set (way_candidates w x). wc ! y = wc ! x)) \<and>
     (\<forall>x<?n. \<forall>y<?n. wc ! x \<noteq> None \<longrightarrow> wc ! x = wc ! y \<longrightarrow> (x, y) \<in> (touching w)\<^sup>*)"
    unfolding labelled_inv_def st prod.case .
  have len: "length wc = ?n"
    using inv1 by blast
  have done_: "wc ! y \<noteq> None" if "y < i" for y
    using inv1 that by blast
  have below: "c < k" if "y < ?n" and "wc ! y = Some c" for y c
    using inv1 that by blast
  have closed: "wc ! y = wc ! x"
    if "x < ?n" and "wc ! x \<noteq> None" and "y \<in> set (way_candidates w x)" for x y
    using inv1 that by blast
  have conn: "(x, y) \<in> (touching w)\<^sup>*"
    if "x < ?n" and "y < ?n" and "wc ! x \<noteq> None" and "wc ! x = wc ! y" for x y
    using inv1 that by blast
  show ?thesis
  proof (cases "wc ! i = None")
    case False
    have "wc ! y \<noteq> None" if "y < Suc i" for y
      using that done_ [of y] False by (cases "y = i") simp_all
    then have "labelled_inv w (Suc i) (wc, k)"
      unfolding labelled_inv_def prod.case
      using inv1 by blast
    then show ?thesis
      using False by (simp add: component_step_def st)
  next
    case True
    let ?wc0 = "wc[i := Some k]"
    have wc0: "?wc0 ! y = (if y = i then Some k else wc ! y)" if "y < ?n" for y
      using that len i by (simp add: nth_list_update)
    have only_i: "y = i" if "y < ?n" and "?wc0 ! y = Some k" for y
      using that wc0 [of y] below [of y k] by (auto split: if_splits)
    have s1: "(i, y) \<in> (touching w)\<^sup>*" if "y < ?n" and "?wc0 ! y = Some k" for y
      using only_i [OF that] by simp
    have s2: "\<forall>y\<in>set (way_candidates w x). ?wc0 ! y \<noteq> None"
      if "x < ?n" and "?wc0 ! x = Some k" and "x \<notin> set [i]" for x
      using only_i [OF that(1,2)] that(3) by simp
    have s3: "\<forall>y\<in>set [i]. y < ?n \<and> ?wc0 ! y = Some k"
      using i wc0 [of i] by simp
    have "fill_inv w k i ?wc0 (?wc0, [i])"
      unfolding fill_inv_def prod.case using len s1 s2 s3 by (intro conjI allI impI) simp_all
    from flood_fill_loop_correct [OF ok this] obtain wc1
      where ff: "flood_fill_loop w k (?wc0, [i]) = Some wc1"
        and fin: "fill_inv w k i ?wc0 (wc1, [])"
      by auto
    from fin have fin1: "length wc1 = ?n \<and>
       (\<forall>y<?n. wc1 ! y = ?wc0 ! y \<or> (?wc0 ! y = None \<and> wc1 ! y = Some k)) \<and>
       (\<forall>y<?n. wc1 ! y = Some k \<longrightarrow> (i, y) \<in> (touching w)\<^sup>*) \<and>
       (\<forall>x<?n. wc1 ! x = Some k \<longrightarrow> (\<forall>y\<in>set (way_candidates w x). wc1 ! y \<noteq> None))"
      unfolding fill_inv_def prod.case by simp
    have len1: "length wc1 = ?n"
      using fin1 by blast
    have keep: "wc1 ! y = ?wc0 ! y \<or> (?wc0 ! y = None \<and> wc1 ! y = Some k)" if "y < ?n" for y
      using fin1 that by blast
    have reach: "(i, y) \<in> (touching w)\<^sup>*" if "y < ?n" and "wc1 ! y = Some k" for y
      using fin1 that by blast
    have full: "wc1 ! y \<noteq> None"
      if "x < ?n" and "wc1 ! x = Some k" and "y \<in> set (way_candidates w x)" for x y
      using fin1 that by blast
    have cand: "\<And>x y. x < ?n \<Longrightarrow> y \<in> set (way_candidates w x) \<Longrightarrow> y < ?n"
      using ok by (simp add: candidates_ok_def)
    have old: "wc ! y = Some c" if "y < ?n" and "wc1 ! y = Some c" and "c \<noteq> k" for y c
      using keep [OF that(1)] wc0 [OF that(1)] that(2,3) by (auto split: if_splits)
    have new: "wc1 ! y = wc ! y" if "y < ?n" and "wc ! y \<noteq> None" for y
      using keep [OF that(1)] wc0 [OF that(1)] that(2) True by (auto split: if_splits)
    have c2: "wc1 ! y \<noteq> None" if "y < Suc i" for y
    proof (cases "y = i")
      case True
      then show ?thesis
        using keep [of i] wc0 [of i] i by auto
    next
      case False
      then have "y < i" using that by simp
      then show ?thesis
        using done_ [of y] new [of y] i by auto
    qed
    have c3: "c < Suc k" if "y < ?n" and "wc1 ! y = Some c" for y c
    proof (cases "c = k")
      case True
      then show ?thesis by simp
    next
      case False
      then show ?thesis
        using old [OF that False] below [OF that(1)] by (simp add: less_Suc_eq)
    qed
    have c4: "wc1 ! y = wc1 ! x"
      if x: "x < ?n" "wc1 ! x \<noteq> None" and y: "y \<in> set (way_candidates w x)" for x y
    proof -
      have yn: "y < ?n" using cand x(1) y by simp
      obtain c where c: "wc1 ! x = Some c" using x(2) by auto
      show ?thesis
      proof (cases "c = k")
        case False
        have "wc ! x = Some c"
          using old [OF x(1) c False] .
        then have "wc ! y = Some c"
          using closed [OF x(1) _ y] by simp
        then show ?thesis
          using new [OF yn] c by simp
      next
        case ck: True
        obtain c' where c': "wc1 ! y = Some c'"
          using full [OF x(1) _ y] c ck by auto
        show ?thesis
        proof (cases "c' = k")
          case True
          then show ?thesis using c c' ck by simp
        next
          case False
          have wy: "wc ! y = Some c'"
            using old [OF yn c' False] .
          have "(x, y) \<in> touching w"
            using x(1) y by (simp add: touching_def)
          then have "(y, x) \<in> touching w"
            using sy by (auto dest: symD)
          then have "x \<in> set (way_candidates w y)"
            by (simp add: touching_def)
          then have "wc ! x = Some c'"
            using closed [OF yn _ , of x] wy by simp
          then have "wc1 ! x = Some c'"
            using new [OF x(1)] by simp
          then show ?thesis
            using c ck False by simp
        qed
      qed
    qed
    have c5: "(x, y) \<in> (touching w)\<^sup>*"
      if x: "x < ?n" and y: "y < ?n" and l: "wc1 ! x \<noteq> None" "wc1 ! x = wc1 ! y" for x y
    proof -
      obtain c where c: "wc1 ! x = Some c" using l(1) by auto
      show ?thesis
      proof (cases "c = k")
        case True
        have "(i, x) \<in> (touching w)\<^sup>*" "(i, y) \<in> (touching w)\<^sup>*"
          using reach x y c l(2) True by simp_all
        then show ?thesis
          using touching_back [OF sy, of i x] by (meson rtrancl_trans)
      next
        case False
        have "wc ! x = Some c" "wc ! y = Some c"
          using old [OF x c False] old [OF y _ False] c l(2) by simp_all
        then show ?thesis
          using conn [OF x y] by simp
      qed
    qed
    have "labelled_inv w (Suc i) (wc1, Suc k)"
      unfolding labelled_inv_def prod.case using len1 c2 c3 c4 c5 by blast
    then show ?thesis
      using True ff by (simp add: component_step_def st flood_fill_def q_insert_def)
  qed
qed

lemma components_loop:
  assumes ok: "candidates_ok w" and sy: "sym (touching w)" and inv: "labelled_inv w 0 st0"
  shows "i \<le> n_ways w \<Longrightarrow>
    \<exists>st. fold (\<lambda>i st. Option.bind st (component_step w i)) [0..<i] (Some st0) = Some st \<and>
         labelled_inv w i st"
proof (induction i)
  case 0
  then show ?case using inv by simp
next
  case (Suc i)
  then obtain st where st: "fold (\<lambda>i st. Option.bind st (component_step w i)) [0..<i] (Some st0) = Some st"
      "labelled_inv w i st"
    by auto
  from Suc.prems have "i < n_ways w" by simp
  from component_step_correct [OF ok sy this st(2)] show ?case
    by (simp add: st(1))
qed

lemma touching_sharing:
  assumes "adjacency_ok w"
  shows "touching w = sharing w"
proof -
  have "y \<in> set (way_candidates w x) \<longleftrightarrow> y < n_ways w \<and> shares_node w x y"
    if "x < n_ways w" for x y
  proof
    assume "y \<in> set (way_candidates w x)"
    then obtain n where n: "n \<in> set (way_nodes w ! x)" "y \<in> set (node_ways w ! n)"
      by (auto simp: way_candidates_def)
    have "n < length (node_ways w)"
      using assms that n(1) unfolding adjacency_ok_def by blast
    then have "y < n_ways w \<and> n \<in> set (way_nodes w ! y)"
      using assms n(2) unfolding adjacency_ok_def by blast
    then show "y < n_ways w \<and> shares_node w x y"
      using n(1) by (auto simp: shares_node_def)
  next
    assume "y < n_ways w \<and> shares_node w x y"
    then obtain n where y: "y < n_ways w" and n: "n \<in> set (way_nodes w ! x)" "n \<in> set (way_nodes w ! y)"
      by (auto simp: shares_node_def)
    have "y \<in> set (node_ways w ! n)"
      using assms y n(2) unfolding adjacency_ok_def by blast
    then show "y \<in> set (way_candidates w x)"
      using n(1) by (auto simp: way_candidates_def)
  qed
  then show ?thesis
    by (auto simp: touching_def sharing_def)
qed

lemma sym_sharing: "sym (sharing w)"
  by (auto simp: sym_def sharing_def shares_node_def)

lemma candidates_ok_adjacency: "adjacency_ok w \<Longrightarrow> candidates_ok w"
  using touching_sharing [of w]
  by (auto simp: candidates_ok_def touching_def sharing_def)

lemma labelled_inv_start:
  assumes "\<forall>c\<in>set (way_component w). c = None"
  shows "labelled_inv w 0 (resize (n_ways w) None (way_component w), 0)"
proof -
  have "resize (n_ways w) None (way_component w) ! x = None" if "x < n_ways w" for x
    using that assms by (simp add: nth_resize)
  then show ?thesis
    by (simp add: labelled_inv_def length_resize)
qed

text \<open>
  C6: on a store whose adjacency columns agree and whose ways have no component yet,
  \<^verbatim>\<open>build_components\<close> returns; afterwards every way has a component id, two ways
  that share an internal node have the same id, and two ways have the same id if and
  only if a chain of ways, each sharing an internal node with the next, leads from one
  to the other (a chain of no step included).
\<close>

theorem build_components_partition:
  assumes adj: "adjacency_ok w" and fresh: "\<forall>c\<in>set (way_component w). c = None"
  shows "\<exists>w1. build_components w = Some w1 \<and>
    length (way_component w1) = n_ways w \<and>
    (\<forall>x<n_ways w. way_component w1 ! x \<noteq> None) \<and>
    (\<forall>x<n_ways w. \<forall>y<n_ways w. shares_node w x y \<longrightarrow>
       way_component w1 ! x = way_component w1 ! y) \<and>
    (\<forall>x<n_ways w. \<forall>y<n_ways w.
       (way_component w1 ! x = way_component w1 ! y) = ((x, y) \<in> (sharing w)\<^sup>*))"
proof -
  let ?n = "n_ways w"
  have ok: "candidates_ok w"
    using adj by (rule candidates_ok_adjacency)
  have ts: "touching w = sharing w"
    using adj by (rule touching_sharing)
  have sy: "sym (touching w)"
    unfolding ts by (rule sym_sharing)
  from components_loop [OF ok sy labelled_inv_start [OF fresh], of ?n]
  obtain wc k where run: "fold (\<lambda>i st. Option.bind st (component_step w i)) [0..<?n]
        (Some (resize ?n None (way_component w), 0)) = Some (wc, k)"
    and inv: "labelled_inv w ?n (wc, k)"
    by auto
  from inv have inv1: "length wc = ?n \<and>
     (\<forall>y<?n. wc ! y \<noteq> None) \<and>
     (\<forall>y<?n. \<forall>c. wc ! y = Some c \<longrightarrow> c < k) \<and>
     (\<forall>x<?n. wc ! x \<noteq> None \<longrightarrow> (\<forall>y\<in>set (way_candidates w x). wc ! y = wc ! x)) \<and>
     (\<forall>x<?n. \<forall>y<?n. wc ! x \<noteq> None \<longrightarrow> wc ! x = wc ! y \<longrightarrow> (x, y) \<in> (touching w)\<^sup>*)"
    unfolding labelled_inv_def prod.case .
  have step: "wc ! y = wc ! x" if "(x, y) \<in> sharing w" for x y
  proof -
    have "x < ?n" "y \<in> set (way_candidates w x)"
      using that by (simp_all add: ts [symmetric] touching_def)
    then show ?thesis
      using inv1 by blast
  qed
  have path: "wc ! y = wc ! x" if "(x, y) \<in> (sharing w)\<^sup>*" for x y
    using that by (induction rule: rtrancl_induct) (simp_all add: step)
  have same: "(x, y) \<in> (sharing w)\<^sup>*" if "x < ?n" and "y < ?n" and "wc ! x = wc ! y" for x y
    using inv1 that unfolding ts by blast
  have res: "build_components w = Some (w\<lparr>way_component := wc\<rparr>)"
    by (simp add: build_components_def run)
  have c1: "\<forall>x<?n. wc ! x \<noteq> None"
    using inv1 by blast
  have c2: "\<forall>x<?n. \<forall>y<?n. shares_node w x y \<longrightarrow> wc ! x = wc ! y"
    using step by (simp add: sharing_def)
  have c3: "\<forall>x<?n. \<forall>y<?n. (wc ! x = wc ! y) = ((x, y) \<in> (sharing w)\<^sup>*)"
    using path same by metis
  show ?thesis
    using inv1 c1 c2 c3 by (simp add: res)
qed

lemma islands_ok: "adjacency_ok islands"
  by (auto simp: adjacency_ok_def islands_def empty_ways_def n_ways_def less_Suc_eq)

theorem build_components_witness:
  "adjacency_ok islands \<and> way_component islands = [] \<and>
   build_components islands =
     Some (islands\<lparr>way_component := [Some 0, Some 0, Some 1, Some 2, Some 2]\<rparr>)"
  using build_components_partition [of islands] islands_ok islands_eval
  by (simp add: islands_def empty_ways_def)

end
